theory Spec2Isabelle
  imports Main "HOL-Library.Monad_Syntax"
begin

section \<open>C library functions used by \<^verbatim>\<open>pigsty.c\<close>\<close>

text \<open>
  Tokens are C strings; they are modelled as \<open>string\<close> (the characters before the
  terminating NUL). \<open>isdigit\<close> and \<open>isxdigit\<close> are the \<^verbatim>\<open>ctype.h\<close> predicates in the
  C locale.
\<close>

definition isdigit :: "char \<Rightarrow> bool" where
  "isdigit c = (48 \<le> (of_char c :: int) \<and> (of_char c :: int) \<le> 57)"

definition isxdigit :: "char \<Rightarrow> bool" where
  "isxdigit c =
     (isdigit c \<or> (97 \<le> (of_char c :: int) \<and> (of_char c :: int) \<le> 102)
                \<or> (65 \<le> (of_char c :: int) \<and> (of_char c :: int) \<le> 70))"

definition digit_val :: "char \<Rightarrow> int" where
  "digit_val c =
     (if isdigit c then of_char c - 48
      else if 97 \<le> (of_char c :: int) then of_char c - 87
      else of_char c - 55)"

text \<open>
  \<open>int\<close> is 32 bits wide and \<open>long\<close> 64 bits wide (LP64). Converting an out-of-range
  value to \<open>int\<close> keeps the low 32 bits, read as two's complement; converting an \<open>int\<close>
  to \<open>unsigned int\<close> reduces it modulo \<open>2 ^ 32\<close>.
\<close>

definition c_int :: "int \<Rightarrow> int" where
  "c_int x = (x + 2 ^ 31) mod 2 ^ 32 - 2 ^ 31"

definition c_uint :: "int \<Rightarrow> int" where
  "c_uint x = x mod 2 ^ 32"

definition ULONG_MAX :: int where
  "ULONG_MAX = 2 ^ 64 - 1"

definition LONG_MAX :: int where
  "LONG_MAX = 2 ^ 63 - 1"

text \<open>
  The value of the leading run of digits of a string in the given base. Every call of
  \<^verbatim>\<open>strtoul\<close> and \<^verbatim>\<open>atoi\<close> in \<^verbatim>\<open>pigsty.c\<close> passes a string without leading white space
  or sign, so only the digit run is modelled.
\<close>

fun digits_value :: "int \<Rightarrow> (char \<Rightarrow> bool) \<Rightarrow> int \<Rightarrow> string \<Rightarrow> int" where
  "digits_value base ok acc [] = acc"
| "digits_value base ok acc (c # cs) =
     (if ok c then digits_value base ok (base * acc + digit_val c) cs else acc)"

text \<open>\<^verbatim>\<open>strtoul(s, NULL, 16)\<close>: saturates at \<^verbatim>\<open>ULONG_MAX\<close>.\<close>

definition strtoul16 :: "string \<Rightarrow> int" where
  "strtoul16 s = min (digits_value 16 isxdigit 0 s) ULONG_MAX"

text \<open>\<^verbatim>\<open>atoi(s)\<close>, that is \<^verbatim>\<open>(int) strtol(s, NULL, 10)\<close>: saturates at \<^verbatim>\<open>LONG_MAX\<close>,
  then is converted to \<open>int\<close>.\<close>

definition atoi :: "string \<Rightarrow> int" where
  "atoi s = c_int (min (digits_value 10 isdigit 0 s) LONG_MAX)"

section \<open>Value classifiers\<close>

text \<open>\<^verbatim>\<open>verify_int\<close>: every character is a digit (the loop runs zero times on the
  empty string).\<close>

fun verify_int :: "string \<Rightarrow> bool" where
  "verify_int [] = True"
| "verify_int (c # cs) = (if \<not> isdigit c then False else verify_int cs)"

text \<open>\<^verbatim>\<open>verify_hex\<close>: \<^verbatim>\<open>0x\<close> followed by one or more hexadecimal digits.\<close>

fun verify_hex_digits :: "string \<Rightarrow> bool" where
  "verify_hex_digits [] = True"
| "verify_hex_digits (c # cs) = (if \<not> isxdigit c then False else verify_hex_digits cs)"

fun verify_hex :: "string \<Rightarrow> bool" where
  "verify_hex (c0 # c1 # c2 # cs) =
     (if c0 \<noteq> CHR ''0'' then False
      else if c1 \<noteq> CHR ''x'' then False
      else verify_hex_digits (c2 # cs))"
| "verify_hex _ = False"

text \<open>\<^verbatim>\<open>verify_string\<close>: the first character and the character at index
  \<^verbatim>\<open>strlen(buffer) - 1\<close> are both a double quote. On the empty string the first test
  fails and the second is not evaluated.\<close>

definition verify_string :: "string \<Rightarrow> bool" where
  "verify_string buffer =
     (case buffer of [] \<Rightarrow> False
      | c # cs \<Rightarrow> c = CHR 0x22 \<and> buffer ! (length buffer - 1) = CHR 0x22)"

text \<open>The bit-width validators. \<open>retval\<close> is an \<open>int\<close>; the hexadecimal branch converts
  the \<open>unsigned long\<close> that \<^verbatim>\<open>strtoul\<close> returns.\<close>

definition verify_u1 :: "string \<Rightarrow> bool" where
  "verify_u1 buffer =
     (let retval = (if verify_hex buffer then c_int (strtoul16 (drop 2 buffer))
                    else if verify_int buffer then atoi buffer
                    else - 1)
      in retval = 0x0 \<or> retval = 0x1)"

definition verify_u3 :: "string \<Rightarrow> bool" where
  "verify_u3 buffer =
     (let retval = (if verify_hex buffer then c_int (strtoul16 (drop 2 buffer))
                    else if verify_int buffer then atoi buffer
                    else - 1)
      in retval \<ge> 0x0 \<and> retval \<le> 0x7)"

definition verify_u4 :: "string \<Rightarrow> bool" where
  "verify_u4 buffer =
     (let retval = (if verify_hex buffer then c_int (strtoul16 (drop 2 buffer))
                    else if verify_int buffer then atoi buffer
                    else - 1)
      in retval \<ge> 0x0 \<and> retval \<le> 0xf)"

definition verify_u6 :: "string \<Rightarrow> bool" where
  "verify_u6 buffer =
     (let retval = (if verify_hex buffer then c_int (strtoul16 (drop 2 buffer))
                    else if verify_int buffer then atoi buffer
                    else - 1)
      in retval \<ge> 0x0 \<and> retval \<le> 0x3f)"

definition verify_u8 :: "string \<Rightarrow> bool" where
  "verify_u8 buffer =
     (let retval = (if verify_hex buffer then c_int (strtoul16 (drop 2 buffer))
                    else if verify_int buffer then atoi buffer
                    else - 1)
      in retval \<ge> 0x0 \<and> retval \<le> 0xff)"

definition verify_u13 :: "string \<Rightarrow> bool" where
  "verify_u13 buffer =
     (let retval = (if verify_hex buffer then c_int (strtoul16 (drop 2 buffer))
                    else if verify_int buffer then atoi buffer
                    else - 1)
      in retval \<ge> 0x0 \<and> retval \<le> 0x1fff)"

definition verify_u16 :: "string \<Rightarrow> bool" where
  "verify_u16 buffer =
     (let retval = (if verify_hex buffer then c_int (strtoul16 (drop 2 buffer))
                    else if verify_int buffer then atoi buffer
                    else - 1)
      in retval \<ge> 0x0 \<and> retval \<le> 0xffff)"

text \<open>In \<^verbatim>\<open>verify_u32\<close> the constant \<^verbatim>\<open>0xffffffff\<close> does not fit an \<open>int\<close>, so it is an
  \<open>unsigned int\<close> and \<open>retval\<close> is converted to \<open>unsigned int\<close> for the second
  comparison; the first one compares \<open>retval\<close> with the \<open>int\<close> zero.\<close>

definition verify_u32 :: "string \<Rightarrow> bool" where
  "verify_u32 buffer =
     (let retval = (if verify_hex buffer then c_int (strtoul16 (drop 2 buffer))
                    else if verify_int buffer then atoi buffer
                    else - 1)
      in retval \<ge> 0x0 \<and> c_uint retval \<le> 0xffffffff)"

text \<open>
  \<^verbatim>\<open>verify_ipv4_addr\<close>. \<open>oct\<close> is the 255-byte scratch array and \<open>oi\<close> the write index \<^verbatim>\<open>o\<close>
  (reset through \<^verbatim>\<open>o = -1\<close> and the increment at the end of the loop body, then reduced
  modulo 255). \<^verbatim>\<open>atoi(oct)\<close> reads the array up to its first NUL; when all 255 bytes
  are digits it reads beyond the array, which is undefined: the result \<open>None\<close>.
\<close>

definition oct_atoi :: "string \<Rightarrow> int option" where
  "oct_atoi oct = (if CHR 0x00 \<in> set oct then Some (atoi (takeWhile (\<lambda>c. c \<noteq> CHR 0x00) oct)) else None)"

fun verify_ipv4_loop :: "string \<Rightarrow> bool \<Rightarrow> nat \<Rightarrow> string \<Rightarrow> nat \<Rightarrow> bool option" where
  "verify_ipv4_loop [] retval dots_nr oct oi = Some (retval \<and> dots_nr = 3)"
| "verify_ipv4_loop (c # cs) retval dots_nr oct oi =
     (if \<not> retval then Some (retval \<and> dots_nr = 3)
      else if c \<noteq> CHR ''.'' \<and> \<not> isdigit c then Some False
      else if c = CHR ''.'' \<or> cs = [] then
        (let oct1 = (if cs = [] then oct[oi := c] else oct);
             dots1 = (if c = CHR ''.'' then dots_nr + 1 else dots_nr)
         in case oct_atoi oct1 of
              None \<Rightarrow> None
            | Some v \<Rightarrow> verify_ipv4_loop cs (v \<ge> 0 \<and> v \<le> 255) dots1 (replicate 255 (CHR 0x00)) 0)
      else verify_ipv4_loop cs retval dots_nr (oct[oi := c]) ((oi + 1) mod 255))"

definition verify_ipv4_addr :: "string \<Rightarrow> bool option" where
  "verify_ipv4_addr buffer =
     (if buffer = ''north-american-ip'' \<or> buffer = ''south-american-ip'' \<or>
         buffer = ''asian-ip'' \<or> buffer = ''european-ip'' \<or> buffer = ''user-defined-ip''
      then Some True
      else verify_ipv4_loop buffer True 0 (replicate 255 (CHR 0x00)) 0)"

section \<open>Tokenizer\<close>

text \<open>
  The source buffer is a NUL-terminated array: \<open>buf\<close> holds its characters and the
  terminator stands at index \<open>length buf\<close>. A \<^verbatim>\<open>char *\<close> into the buffer is an index.
  Reading at an index beyond the terminator is outside the allocation, which is
  undefined in C: the read, and every function that performs it, yields \<open>None\<close>.
\<close>

definition char_at :: "string \<Rightarrow> nat \<Rightarrow> char option" where
  "char_at buf i =
     (if i < length buf then Some (buf ! i)
      else if i = length buf then Some (CHR 0x00)
      else None)"

definition is_pigsty_blank :: "char \<Rightarrow> bool" where
  "is_pigsty_blank c = (c = CHR '' '' \<or> c = CHR 0x09 \<or> c = CHR 0x0A \<or> c = CHR 0x0D)"

definition is_pigsty_comment :: "char \<Rightarrow> bool" where
  "is_pigsty_comment c = (c = CHR ''#'')"

function skip_pigsty_comment :: "string \<Rightarrow> nat \<Rightarrow> nat option" where
  "skip_pigsty_comment buf b =
     (case char_at buf b of
        None \<Rightarrow> None
      | Some c \<Rightarrow>
          if c \<noteq> CHR 0x0A \<and> c \<noteq> CHR 0x00 then skip_pigsty_comment buf (b + 1)
          else Some b)"
  by pat_completeness auto
termination
  by (relation "measure (\<lambda>(buf, b). length buf - b)")
     (auto simp: char_at_def split: if_splits)

declare skip_pigsty_comment.simps [simp del]

lemma skip_pigsty_comment_ge:
  "skip_pigsty_comment buf b = Some b' \<Longrightarrow> b \<le> b'"
proof (induction buf b rule: skip_pigsty_comment.induct)
  case (1 buf b)
  from "1.prems" show ?case
    by (subst (asm) skip_pigsty_comment.simps)
       (auto split: option.splits if_splits dest!: "1.IH")
qed

function skip_pigsty_blank :: "string \<Rightarrow> nat \<Rightarrow> nat option" where
  "skip_pigsty_blank buf b =
     (case char_at buf b of
        None \<Rightarrow> None
      | Some c \<Rightarrow>
          if is_pigsty_blank c then
            (case char_at buf (b + 1) of
               None \<Rightarrow> None
             | Some d \<Rightarrow>
                 if is_pigsty_comment d then
                   (case skip_pigsty_comment buf (b + 1) of
                      None \<Rightarrow> None
                    | Some b' \<Rightarrow> skip_pigsty_blank buf b')
                 else skip_pigsty_blank buf (b + 1))
          else Some b)"
  by pat_completeness auto
termination
  by (relation "measure (\<lambda>(buf, b). length buf - b)")
     (auto simp: char_at_def is_pigsty_blank_def split: if_splits
           dest!: skip_pigsty_comment_ge)

declare skip_pigsty_blank.simps [simp del]

text \<open>The inner loop of \<^verbatim>\<open>get_next_pigsty_word\<close>, entered with \<open>end_bp\<close> just behind the
  opening quote: it stops at a double quote or at the terminator; after each step it
  jumps two characters further when it stands on a backslash.\<close>

function get_next_pigsty_word_quoted :: "string \<Rightarrow> nat \<Rightarrow> nat option" where
  "get_next_pigsty_word_quoted buf end_bp =
     (case char_at buf end_bp of
        None \<Rightarrow> None
      | Some c \<Rightarrow>
          if c \<noteq> CHR 0x22 \<and> c \<noteq> CHR 0x00 then
            (case char_at buf (end_bp + 1) of
               None \<Rightarrow> None
             | Some d \<Rightarrow>
                 if d = CHR 0x5C then get_next_pigsty_word_quoted buf (end_bp + 1 + 2)
                 else get_next_pigsty_word_quoted buf (end_bp + 1))
          else Some end_bp)"
  by pat_completeness auto
termination
  by (relation "measure (\<lambda>(buf, e). length buf + 1 - e)")
     (auto simp: char_at_def split: if_splits)

declare get_next_pigsty_word_quoted.simps [simp del]

text \<open>The outer loop: it runs while \<open>end_bp\<close> is neither on a blank nor on the
  terminator; a double quote hands over to the inner loop and ends the token one
  character behind the place where the inner loop stops; any other character is
  consumed, and the token ends when the next character is \<^verbatim>\<open>=\<close>, \<^verbatim>\<open>,\<close> or \<^verbatim>\<open>]\<close>.\<close>

function get_next_pigsty_word_scan :: "string \<Rightarrow> nat \<Rightarrow> nat option" where
  "get_next_pigsty_word_scan buf end_bp =
     (case char_at buf end_bp of
        None \<Rightarrow> None
      | Some c \<Rightarrow>
          if \<not> is_pigsty_blank c \<and> c \<noteq> CHR 0x00 then
            (if c = CHR 0x22 then
               (case get_next_pigsty_word_quoted buf (end_bp + 1) of
                  None \<Rightarrow> None
                | Some e \<Rightarrow> Some (e + 1))
             else
               (case char_at buf (end_bp + 1) of
                  None \<Rightarrow> None
                | Some d \<Rightarrow>
                    if d = CHR ''='' \<or> d = CHR '','' \<or> d = CHR '']'' then Some (end_bp + 1)
                    else get_next_pigsty_word_scan buf (end_bp + 1)))
          else Some end_bp)"
  by pat_completeness auto
termination
  by (relation "measure (\<lambda>(buf, e). length buf - e)")
     (auto simp: char_at_def split: if_splits)

declare get_next_pigsty_word_scan.simps [simp del]

text \<open>The token is the copy of the bytes from \<open>bp\<close> up to \<open>end_bp\<close> into a zeroed
  segment one byte longer, read as a C string.\<close>

definition copy_word :: "string \<Rightarrow> nat \<Rightarrow> nat \<Rightarrow> string" where
  "copy_word buf bp end_bp = takeWhile (\<lambda>c. c \<noteq> CHR 0x00) (take (end_bp - bp) (drop bp buf))"

text \<open>\<^verbatim>\<open>get_next_pigsty_word\<close> returns the token and the new cursor \<^verbatim>\<open>*next\<close>.\<close>

definition get_next_pigsty_word :: "string \<Rightarrow> nat \<Rightarrow> (string \<times> nat) option" where
  "get_next_pigsty_word buf buffer =
     (case skip_pigsty_blank buf buffer of
        None \<Rightarrow> None
      | Some bp \<Rightarrow>
          (case char_at buf bp of
             None \<Rightarrow> None
           | Some c \<Rightarrow>
               (case (if c \<noteq> CHR ''='' \<and> c \<noteq> CHR '','' \<and> c \<noteq> CHR ''[''
                      then get_next_pigsty_word_scan buf bp
                      else Some (bp + 1)) of
                  None \<Rightarrow> None
                | Some end_bp \<Rightarrow> Some (copy_word buf bp end_bp, end_bp))))"

text \<open>A ghost copy of \<^verbatim>\<open>skip_pigsty_blank\<close> that follows the same loop and records, in
  order, the places at which the loop calls \<^verbatim>\<open>skip_pigsty_comment\<close>, that is the places
  of the \<^verbatim>\<open>#\<close> characters it treats as the start of a comment.\<close>

function skip_pigsty_blank_comments :: "string \<Rightarrow> nat \<Rightarrow> nat list" where
  "skip_pigsty_blank_comments buf b =
     (case char_at buf b of
        None \<Rightarrow> []
      | Some c \<Rightarrow>
          if is_pigsty_blank c then
            (case char_at buf (b + 1) of
               None \<Rightarrow> []
             | Some d \<Rightarrow>
                 if is_pigsty_comment d then
                   (b + 1) # (case skip_pigsty_comment buf (b + 1) of
                      None \<Rightarrow> []
                    | Some b' \<Rightarrow> skip_pigsty_blank_comments buf b')
                 else skip_pigsty_blank_comments buf (b + 1))
          else [])"
  by pat_completeness auto
termination
  apply (relation "measure (\<lambda>(buf, b). length buf - b)")
  apply (auto simp: char_at_def is_pigsty_blank_def split: if_splits
           dest!: skip_pigsty_comment_ge)
  done

declare skip_pigsty_blank_comments.simps [simp del]

subsection \<open>Properties of the tokenizer\<close>

lemma skip_pigsty_blank_nonblank:
  "char_at buf p = Some c \<Longrightarrow> \<not> is_pigsty_blank c \<Longrightarrow> skip_pigsty_blank buf p = Some p"
  by (subst skip_pigsty_blank.simps) simp

lemma skip_pigsty_blank_comments_nonblank:
  "char_at buf p = Some c \<Longrightarrow> \<not> is_pigsty_blank c \<Longrightarrow> skip_pigsty_blank_comments buf p = []"
  by (subst skip_pigsty_blank_comments.simps) simp

lemma skip_pigsty_blank_comments_after_blank:
  "q \<in> set (skip_pigsty_blank_comments buf b) \<Longrightarrow>
     b < q \<and> char_at buf q = Some CHR ''#'' \<and>
     (\<exists>c. char_at buf (q - 1) = Some c \<and> is_pigsty_blank c)"
proof (induction buf b rule: skip_pigsty_blank_comments.induct)
  case (1 buf b)
  note eq = skip_pigsty_blank_comments.simps[of buf b]
  from "1.prems" have ne: "skip_pigsty_blank_comments buf b \<noteq> []" by auto
  from ne eq obtain c where c: "char_at buf b = Some c"
    by (cases "char_at buf b") auto
  from ne eq c have bl: "is_pigsty_blank c" by (cases "is_pigsty_blank c") auto
  from ne eq c bl obtain d where d: "char_at buf (b + 1) = Some d"
    by (cases "char_at buf (b + 1)") auto
  show ?case
  proof (cases "is_pigsty_comment d")
    case False
    with eq c bl d have "skip_pigsty_blank_comments buf b = skip_pigsty_blank_comments buf (b + 1)"
      by simp
    with "1.prems" have "q \<in> set (skip_pigsty_blank_comments buf (b + 1))" by simp
    from "1.IH"(2)[OF c bl d False this] show ?thesis by auto
  next
    case True
    show ?thesis
    proof (cases "skip_pigsty_comment buf (b + 1)")
      case None
      with eq c bl d True have "skip_pigsty_blank_comments buf b = [b + 1]" by simp
      with "1.prems" c bl d True show ?thesis by (simp add: is_pigsty_comment_def)
    next
      case (Some b')
      with eq c bl d True
      have "skip_pigsty_blank_comments buf b = (b + 1) # skip_pigsty_blank_comments buf b'"
        by simp
      with "1.prems" have "q = b + 1 \<or> q \<in> set (skip_pigsty_blank_comments buf b')" by simp
      then show ?thesis
      proof
        assume "q = b + 1"
        with c bl d True show ?thesis by (simp add: is_pigsty_comment_def)
      next
        assume q: "q \<in> set (skip_pigsty_blank_comments buf b')"
        from "1.IH"(1)[OF c bl d True Some q] skip_pigsty_comment_ge[OF Some]
        show ?thesis by auto
      qed
    qed
  qed
qed

lemma get_next_pigsty_word_quoted_ge:
  "get_next_pigsty_word_quoted buf e = Some e' \<Longrightarrow> e \<le> e'"
proof (induction buf e rule: get_next_pigsty_word_quoted.induct)
  case (1 buf e)
  from "1.prems"[unfolded get_next_pigsty_word_quoted.simps[of buf e]] "1.IH"
  show ?case
    by (fastforce split: option.splits if_splits)
qed

lemma get_next_pigsty_word_scan_ge:
  "get_next_pigsty_word_scan buf e = Some e' \<Longrightarrow> e \<le> e'"
proof (induction buf e rule: get_next_pigsty_word_scan.induct)
  case (1 buf e)
  from "1.prems"[unfolded get_next_pigsty_word_scan.simps[of buf e]] "1.IH"
  show ?case
    by (fastforce split: option.splits if_splits dest: get_next_pigsty_word_quoted_ge)
qed

lemma get_next_pigsty_word_scan_gt:
  assumes "get_next_pigsty_word_scan buf e = Some e'" "char_at buf e = Some c"
    "\<not> is_pigsty_blank c" "c \<noteq> CHR 0x00"
  shows "e < e'"
  using assms(1)[unfolded get_next_pigsty_word_scan.simps[of buf e]] assms(2-)
  by (fastforce split: option.splits if_splits dest: get_next_pigsty_word_scan_ge get_next_pigsty_word_quoted_ge)

lemma copy_word_Cons:
  assumes "bp < length buf" "bp < end_bp" "buf ! bp \<noteq> CHR 0x00"
  shows "\<exists>rest. copy_word buf bp end_bp = buf ! bp # rest"
proof -
  from assms obtain n where n: "end_bp - bp = Suc n" by (cases "end_bp - bp") auto
  from assms have "drop bp buf = buf ! bp # drop (Suc bp) buf"
    by (simp add: Cons_nth_drop_Suc)
  with n assms show ?thesis by (simp add: copy_word_def)
qed

lemma get_next_pigsty_word_scan_no_quote:
  "e \<le> length buf \<Longrightarrow> CHR 0x22 \<notin> set (drop e buf) \<Longrightarrow> \<exists>e'. get_next_pigsty_word_scan buf e = Some e'"
proof (induction buf e rule: get_next_pigsty_word_scan.induct)
  case (1 buf e)
  show ?case
  proof (cases "e < length buf")
    case False
    with "1.prems" have "char_at buf e = Some (CHR 0x00)" by (simp add: char_at_def)
    then show ?thesis by (subst get_next_pigsty_word_scan.simps) simp
  next
    case True
    then have ce: "char_at buf e = Some (buf ! e)" and ce1: "char_at buf (e + 1) \<noteq> None"
      by (auto simp: char_at_def)
    from True have dr: "drop e buf = buf ! e # drop (Suc e) buf" by (simp add: Cons_nth_drop_Suc)
    with "1.prems" have nq: "buf ! e \<noteq> CHR 0x22" "CHR 0x22 \<notin> set (drop (e + 1) buf)" by auto
    from ce1 obtain d where d: "char_at buf (e + 1) = Some d" by auto
    show ?thesis
    proof (cases "\<not> is_pigsty_blank (buf ! e) \<and> buf ! e \<noteq> CHR 0x00 \<and> \<not> (d = CHR ''='' \<or> d = CHR '','' \<or> d = CHR '']'')")
      case True
      with "1.IH"[OF ce _ _ d] nq True \<open>e < length buf\<close>
      obtain e' where "get_next_pigsty_word_scan buf (e + 1) = Some e'" by auto
      with True ce d nq show ?thesis by (subst get_next_pigsty_word_scan.simps) simp
    next
      case False
      with ce d nq show ?thesis by (subst get_next_pigsty_word_scan.simps) auto
    qed
  qed
qed

lemma hash_starts_word:
  assumes h: "char_at buf p = Some CHR ''#''"
  shows "skip_pigsty_blank buf p = Some p"
    and "get_next_pigsty_word buf p = Some (tok, next) \<Longrightarrow> p < next \<and> (\<exists>rest. tok = CHR ''#'' # rest)"
    and "CHR 0x22 \<notin> set (drop p buf) \<Longrightarrow> \<exists>tok next. get_next_pigsty_word buf p = Some (tok, next)"
proof -
  have nb: "\<not> is_pigsty_blank CHR ''#''" by (simp add: is_pigsty_blank_def)
  from h have pl: "p < length buf" and bp: "buf ! p = CHR ''#''"
    by (auto simp: char_at_def split: if_splits)
  show sb: "skip_pigsty_blank buf p = Some p" using h nb by (rule skip_pigsty_blank_nonblank)
  {
    assume g: "get_next_pigsty_word buf p = Some (tok, next)"
    from g sb h have sc: "get_next_pigsty_word_scan buf p = Some next" and tok: "tok = copy_word buf p next"
      by (auto simp: get_next_pigsty_word_def split: option.splits)
    from get_next_pigsty_word_scan_gt[OF sc h nb] have lt: "p < next" by simp
    from copy_word_Cons[OF pl lt] bp tok
    show "p < next \<and> (\<exists>rest. tok = CHR ''#'' # rest)" using lt by auto
  }
  {
    assume "CHR 0x22 \<notin> set (drop p buf)"
    with get_next_pigsty_word_scan_no_quote[of p buf] pl
    obtain e where "get_next_pigsty_word_scan buf p = Some e" by auto
    with sb h show "\<exists>tok next. get_next_pigsty_word buf p = Some (tok, next)"
      by (simp add: get_next_pigsty_word_def)
  }
qed

section \<open>Field catalog\<close>

text \<open>
  Modelled from the spec: the enumeration \<^verbatim>\<open>pig_field_t\<close> is declared in a header that is
  not among the sources. The spec's field catalog gives every field label a numeric
  index, the stable identity of the field; \<^verbatim>\<open>pigsty.c\<close> names the indices \<^verbatim>\<open>kIpv4_version\<close>
  ... \<^verbatim>\<open>kSignature\<close> and uses an index as the position of the field's row in
  \<^verbatim>\<open>SIGNATURE_FIELDS\<close>, so the constructors stand in the order of the table.
\<close>

datatype pig_field_t =
    kIpv4_version | kIpv4_ihl | kIpv4_tos | kIpv4_tlen | kIpv4_id | kIpv4_flags
  | kIpv4_offset | kIpv4_ttl | kIpv4_protocol | kIpv4_checksum | kIpv4_src | kIpv4_dst
  | kIpv4_payload
  | kTcp_src | kTcp_dst | kTcp_seq | kTcp_ackno | kTcp_size | kTcp_reserv | kTcp_urg
  | kTcp_ack | kTcp_psh | kTcp_rst | kTcp_syn | kTcp_fin | kTcp_wsize | kTcp_checksum
  | kTcp_urgp | kTcp_payload
  | kUdp_src | kUdp_dst | kUdp_size | kUdp_checksum | kUdp_payload
  | kIcmp_type | kIcmp_code | kIcmp_checksum | kIcmp_payload
  | kSignature

text \<open>
  Modelled from the spec: \<^verbatim>\<open>to_int\<close> is defined in a source file that is not among the
  sources; by the spec it yields the parsed numeric value of an integer or hexadecimal
  literal.
\<close>

definition to_int :: "string \<Rightarrow> int" where
  "to_int buffer = (if verify_hex buffer then c_int (strtoul16 (drop 2 buffer)) else atoi buffer)"

definition verify_ip_version :: "string \<Rightarrow> bool" where
  "verify_ip_version buffer =
     ((verify_u3 buffer \<or> verify_u4 buffer \<or> verify_u8 buffer \<or> verify_u13 buffer \<or>
       verify_u16 buffer \<or> verify_u32 buffer) \<and> to_int buffer = 4)"

text \<open>The rows of \<^verbatim>\<open>SIGNATURE_FIELDS\<close>: label, index, verifier. A verifier yields \<open>None\<close>
  where the C function has no defined result (see \<open>verify_ipv4_addr\<close>).\<close>

type_synonym signature_fields = "string \<times> pig_field_t \<times> (string \<Rightarrow> bool option)"

definition SIGNATURE_FIELDS :: "signature_fields list" where
  "SIGNATURE_FIELDS =
    [(''ip.version'', kIpv4_version, \<lambda>b. Some (verify_ip_version b)),
     (''ip.ihl'', kIpv4_ihl, \<lambda>b. Some (verify_u4 b)),
     (''ip.tos'', kIpv4_tos, \<lambda>b. Some (verify_u8 b)),
     (''ip.tlen'', kIpv4_tlen, \<lambda>b. Some (verify_u16 b)),
     (''ip.id'', kIpv4_id, \<lambda>b. Some (verify_u16 b)),
     (''ip.flags'', kIpv4_flags, \<lambda>b. Some (verify_u3 b)),
     (''ip.offset'', kIpv4_offset, \<lambda>b. Some (verify_u13 b)),
     (''ip.ttl'', kIpv4_ttl, \<lambda>b. Some (verify_u8 b)),
     (''ip.protocol'', kIpv4_protocol, \<lambda>b. Some (verify_u8 b)),
     (''ip.checksum'', kIpv4_checksum, \<lambda>b. Some (verify_u16 b)),
     (''ip.src'', kIpv4_src, verify_ipv4_addr),
     (''ip.dst'', kIpv4_dst, verify_ipv4_addr),
     (''ip.payload'', kIpv4_payload, \<lambda>b. Some (verify_string b)),
     (''tcp.src'', kTcp_src, \<lambda>b. Some (verify_u16 b)),
     (''tcp.dst'', kTcp_dst, \<lambda>b. Some (verify_u16 b)),
     (''tcp.seqno'', kTcp_seq, \<lambda>b. Some (verify_u32 b)),
     (''tcp.ackno'', kTcp_ackno, \<lambda>b. Some (verify_u32 b)),
     (''tcp.size'', kTcp_size, \<lambda>b. Some (verify_u4 b)),
     (''tcp.reserv'', kTcp_reserv, \<lambda>b. Some (verify_u6 b)),
     (''tcp.urg'', kTcp_urg, \<lambda>b. Some (verify_u1 b)),
     (''tcp.ack'', kTcp_ack, \<lambda>b. Some (verify_u1 b)),
     (''tcp.psh'', kTcp_psh, \<lambda>b. Some (verify_u1 b)),
     (''tcp.rst'', kTcp_rst, \<lambda>b. Some (verify_u1 b)),
     (''tcp.syn'', kTcp_syn, \<lambda>b. Some (verify_u1 b)),
     (''tcp.fin'', kTcp_fin, \<lambda>b. Some (verify_u1 b)),
     (''tcp.wsize'', kTcp_wsize, \<lambda>b. Some (verify_u16 b)),
     (''tcp.checksum'', kTcp_checksum, \<lambda>b. Some (verify_u16 b)),
     (''tcp.urgp'', kTcp_urgp, \<lambda>b. Some (verify_u16 b)),
     (''tcp.payload'', kTcp_payload, \<lambda>b. Some (verify_string b)),
     (''udp.src'', kUdp_src, \<lambda>b. Some (verify_u16 b)),
     (''udp.dst'', kUdp_dst, \<lambda>b. Some (verify_u16 b)),
     (''udp.size'', kUdp_size, \<lambda>b. Some (verify_u16 b)),
     (''udp.checksum'', kUdp_checksum, \<lambda>b. Some (verify_u16 b)),
     (''udp.payload'', kUdp_payload, \<lambda>b. Some (verify_string b)),
     (''icmp.type'', kIcmp_type, \<lambda>b. Some (verify_u8 b)),
     (''icmp.code'', kIcmp_code, \<lambda>b. Some (verify_u8 b)),
     (''icmp.checksum'', kIcmp_checksum, \<lambda>b. Some (verify_u16 b)),
     (''icmp.payload'', kIcmp_payload, \<lambda>b. Some (verify_string b)),
     (''signature'', kSignature, \<lambda>b. Some (verify_string b))]"

text \<open>\<^verbatim>\<open>get_pigsty_field_index\<close>: the index of the first row with the given label;
  \<open>None\<close> stands for the result \<^verbatim>\<open>-1\<close>.\<close>

fun get_pigsty_field_index_loop :: "signature_fields list \<Rightarrow> string \<Rightarrow> pig_field_t option" where
  "get_pigsty_field_index_loop [] field = None"
| "get_pigsty_field_index_loop (row # rows) field =
     (if fst row = field then Some (fst (snd row)) else get_pigsty_field_index_loop rows field)"

definition get_pigsty_field_index :: "string \<Rightarrow> pig_field_t option" where
  "get_pigsty_field_index field = get_pigsty_field_index_loop SIGNATURE_FIELDS field"

text \<open>\<^verbatim>\<open>SIGNATURE_FIELDS[field_index]\<close>: the code uses the index as the position of the row;
  \<open>pig_field_pos\<close> is the numeric value of the enumerator.\<close>

fun pig_field_pos :: "pig_field_t \<Rightarrow> nat" where
  "pig_field_pos kIpv4_version = 0" | "pig_field_pos kIpv4_ihl = 1"
| "pig_field_pos kIpv4_tos = 2" | "pig_field_pos kIpv4_tlen = 3"
| "pig_field_pos kIpv4_id = 4" | "pig_field_pos kIpv4_flags = 5"
| "pig_field_pos kIpv4_offset = 6" | "pig_field_pos kIpv4_ttl = 7"
| "pig_field_pos kIpv4_protocol = 8" | "pig_field_pos kIpv4_checksum = 9"
| "pig_field_pos kIpv4_src = 10" | "pig_field_pos kIpv4_dst = 11"
| "pig_field_pos kIpv4_payload = 12" | "pig_field_pos kTcp_src = 13"
| "pig_field_pos kTcp_dst = 14" | "pig_field_pos kTcp_seq = 15"
| "pig_field_pos kTcp_ackno = 16" | "pig_field_pos kTcp_size = 17"
| "pig_field_pos kTcp_reserv = 18" | "pig_field_pos kTcp_urg = 19"
| "pig_field_pos kTcp_ack = 20" | "pig_field_pos kTcp_psh = 21"
| "pig_field_pos kTcp_rst = 22" | "pig_field_pos kTcp_syn = 23"
| "pig_field_pos kTcp_fin = 24" | "pig_field_pos kTcp_wsize = 25"
| "pig_field_pos kTcp_checksum = 26" | "pig_field_pos kTcp_urgp = 27"
| "pig_field_pos kTcp_payload = 28" | "pig_field_pos kUdp_src = 29"
| "pig_field_pos kUdp_dst = 30" | "pig_field_pos kUdp_size = 31"
| "pig_field_pos kUdp_checksum = 32" | "pig_field_pos kUdp_payload = 33"
| "pig_field_pos kIcmp_type = 34" | "pig_field_pos kIcmp_code = 35"
| "pig_field_pos kIcmp_checksum = 36" | "pig_field_pos kIcmp_payload = 37"
| "pig_field_pos kSignature = 38"

definition field_label :: "pig_field_t \<Rightarrow> string" where
  "field_label field_index = fst (SIGNATURE_FIELDS ! pig_field_pos field_index)"

definition field_verifier :: "pig_field_t \<Rightarrow> string \<Rightarrow> bool option" where
  "field_verifier field_index = snd (snd (SIGNATURE_FIELDS ! pig_field_pos field_index))"

section \<open>Diagnostics\<close>

text \<open>The functions report through \<^verbatim>\<open>printf\<close>. Every message of the modelled functions
  is a constructor; a function returns the messages it printed, in order.\<close>

datatype diag =
    PanicInvalidSignature
  | PanicIOError
  | PanicSignatureRedeclared string
  | PanicSignatureFieldMissing
  | PanicNotWellOpened
  | PanicUnknownField string
  | PanicFieldRedeclared string
  | PanicExpectingEquals
  | PanicInvalidData string string
  | PanicMissingSeparator
  | ErrorFieldRequired string
  | PanicIpVersionMissing string
  | PanicOnSignature string
  | PanicRequiredFieldMissing string
  | PanicTransportFields string

section \<open>Syntax pass\<close>

lemma get_next_pigsty_word_ge:
  assumes "get_next_pigsty_word buf p = Some (tok, n)"
  shows "p \<le> n"
proof -
  from assms obtain bp c where bp: "skip_pigsty_blank buf p = Some bp"
    and c: "char_at buf bp = Some c"
    by (auto simp: get_next_pigsty_word_def split: option.splits)
  have "p \<le> bp" using bp
  proof (induction buf p rule: skip_pigsty_blank.induct)
    case (1 buf b)
    from "1.prems"[unfolded skip_pigsty_blank.simps[of buf b]] "1.IH"
    show ?case
      by (fastforce split: option.splits if_splits dest: skip_pigsty_comment_ge)
  qed
  moreover from assms bp c have "bp \<le> n"
    by (auto simp: get_next_pigsty_word_def split: if_splits option.splits
             dest: get_next_pigsty_word_scan_ge)
  ultimately show ?thesis by simp
qed

lemma skip_pigsty_blank_stops:
  "skip_pigsty_blank buf p = Some bp \<Longrightarrow> \<exists>c. char_at buf bp = Some c \<and> \<not> is_pigsty_blank c"
proof (induction buf p rule: skip_pigsty_blank.induct)
  case (1 buf b)
  from "1.prems"[unfolded skip_pigsty_blank.simps[of buf b]] "1.IH"
  show ?case
    by (fastforce split: option.splits if_splits)
qed

lemma get_next_pigsty_word_gt:
  assumes g: "get_next_pigsty_word buf p = Some (tok, n)"
    and c: "char_at buf p = Some c" and nz: "c \<noteq> CHR 0x00"
  shows "p < n"
proof -
  from g obtain bp d where bp: "skip_pigsty_blank buf p = Some bp"
    and d: "char_at buf bp = Some d"
    by (auto simp: get_next_pigsty_word_def split: option.splits)
  from skip_pigsty_blank_stops[OF bp] d have nb: "\<not> is_pigsty_blank d" by simp
  have pbp: "p \<le> bp" using bp
  proof (induction buf p rule: skip_pigsty_blank.induct)
    case (1 buf b)
    from "1.prems"[unfolded skip_pigsty_blank.simps[of buf b]] "1.IH"
    show ?case
      by (fastforce split: option.splits if_splits dest: skip_pigsty_comment_ge)
  qed
  show ?thesis
  proof (cases "d = CHR 0x00")
    case True
    with c d nz have "bp \<noteq> p" by auto
    with pbp have "p < bp" by simp
    moreover from g bp d have "bp \<le> n"
      by (auto simp: get_next_pigsty_word_def split: if_splits option.splits
               dest: get_next_pigsty_word_scan_ge)
    ultimately show ?thesis by simp
  next
    case False
    from g bp d have "bp < n"
      by (auto simp: get_next_pigsty_word_def split: if_splits option.splits
               dest: get_next_pigsty_word_scan_gt[OF _ d nb False])
    with pbp show ?thesis by simp
  qed
qed

text \<open>\<^verbatim>\<open>*token\<close>: the first character of a C string, the terminator when it is empty.\<close>

definition first_char :: "string \<Rightarrow> char" where
  "first_char token = (case token of [] \<Rightarrow> CHR 0x00 | c # cs \<Rightarrow> c)"

text \<open>The \<^verbatim>\<open>switch (state)\<close> of \<^verbatim>\<open>compile_next_buffered_pigsty_entry\<close>. \<open>Stop\<close> is a
  \<^verbatim>\<open>return 0\<close> inside the switch, with the message printed before it; \<open>Go\<close> carries the
  new \<open>state\<close>, \<open>field_map\<close>, \<open>field_index\<close> and \<open>all_ok\<close> and the message printed.\<close>

datatype compile_step =
    Stop "diag list"
  | Go nat "pig_field_t \<Rightarrow> bool" pig_field_t bool "diag list"

definition compile_switch ::
  "nat \<Rightarrow> (pig_field_t \<Rightarrow> bool) \<Rightarrow> pig_field_t \<Rightarrow> string \<Rightarrow> compile_step option" where
  "compile_switch state field_map field_index token =
     (if state = 0 then
        (case get_pigsty_field_index token of
           None \<Rightarrow> Some (Stop [PanicUnknownField token])
         | Some fi \<Rightarrow>
             if field_map fi then Some (Stop [PanicFieldRedeclared (field_label fi)])
             else Some (Go 1 (field_map(fi := True)) fi True []))
      else if state = 1 then
        (if token \<noteq> ''='' then Some (Stop [PanicExpectingEquals])
         else Some (Go 2 field_map field_index True []))
      else if state = 2 then
        (case field_verifier field_index token of
           None \<Rightarrow> None
         | Some all_ok \<Rightarrow>
             if \<not> all_ok then Some (Stop [PanicInvalidData (field_label field_index) token])
             else Some (Go 3 field_map field_index True []))
      else if state = 3 then
        (let all_ok = (first_char token = CHR '','' \<or> first_char token = CHR '']'')
         in Some (Go 0 field_map field_index all_ok
                    (if \<not> all_ok then [PanicMissingSeparator] else [])))
      else Some (Go state field_map field_index True []))"

text \<open>The \<^verbatim>\<open>while (all_ok && **next != 0 && token != NULL)\<close> loop. The result is
  \<open>all_ok\<close>, the cursor \<^verbatim>\<open>*next\<close> and the messages.\<close>

function compile_next_buffered_pigsty_entry_loop ::
  "string \<Rightarrow> nat \<Rightarrow> (pig_field_t \<Rightarrow> bool) \<Rightarrow> pig_field_t \<Rightarrow> string \<Rightarrow> nat
     \<Rightarrow> (bool \<times> nat \<times> diag list) option" where
  "compile_next_buffered_pigsty_entry_loop buf state field_map field_index token next =
     (case char_at buf next of
        None \<Rightarrow> None
      | Some c \<Rightarrow>
          if c = CHR 0x00 then Some (True, next, [])
          else
            (case compile_switch state field_map field_index token of
               None \<Rightarrow> None
             | Some (Stop msgs) \<Rightarrow> Some (False, next, msgs)
             | Some (Go state' field_map' field_index' all_ok msgs) \<Rightarrow>
                 if first_char token \<noteq> CHR '']'' then
                   (case get_next_pigsty_word buf next of
                      None \<Rightarrow> None
                    | Some (token', next') \<Rightarrow>
                        if all_ok then
                          (case compile_next_buffered_pigsty_entry_loop buf state' field_map'
                                  field_index' token' next' of
                             None \<Rightarrow> None
                           | Some (r, n, msgs') \<Rightarrow> Some (r, n, msgs @ msgs'))
                        else Some (False, next', msgs))
                 else Some (all_ok, next, msgs)))"
  by pat_completeness auto
termination
  by (relation "measure (\<lambda>(buf, state, field_map, field_index, token, next). length buf + 1 - next)")
     (auto simp: char_at_def split: if_splits dest!: get_next_pigsty_word_gt[where c = "buf ! next" for buf "next"])

declare compile_next_buffered_pigsty_entry_loop.simps [simp del]

definition compile_next_buffered_pigsty_entry :: "string \<Rightarrow> nat \<Rightarrow> (bool \<times> nat \<times> diag list) option" where
  "compile_next_buffered_pigsty_entry buf buffer =
     (case get_next_pigsty_word buf buffer of
        None \<Rightarrow> None
      | Some (token, next) \<Rightarrow>
          if first_char token = CHR 0x00 then Some (True, next, [])
          else if first_char token \<noteq> CHR ''['' then Some (False, next, [PanicNotWellOpened])
          else
            (case get_next_pigsty_word buf next of
               None \<Rightarrow> None
             | Some (token', next') \<Rightarrow>
                 compile_next_buffered_pigsty_entry_loop buf 0 (\<lambda>f. False) kIpv4_version
                   token' next'))"

lemma compile_next_buffered_pigsty_entry_loop_ge:
  "compile_next_buffered_pigsty_entry_loop buf state field_map field_index token next = Some (r, n, msgs)
     \<Longrightarrow> next \<le> n"
proof (induction buf state field_map field_index token "next" arbitrary: r n msgs
         rule: compile_next_buffered_pigsty_entry_loop.induct)
  case (1 buf state field_map field_index token nxt)
  note eq = "1.prems"[unfolded compile_next_buffered_pigsty_entry_loop.simps[of buf state field_map field_index token nxt]]
  from eq obtain c where c: "char_at buf nxt = Some c" by (auto split: option.splits)
  show ?case
  proof (cases "c = CHR 0x00")
    case True
    with eq c show ?thesis by simp
  next
    case nz: False
    from eq c nz obtain st where st: "compile_switch state field_map field_index token = Some st"
      by (auto split: option.splits)
    show ?thesis
    proof (cases st)
      case (Stop m)
      with eq c nz st show ?thesis by simp
    next
      case (Go state' field_map' field_index' all_ok m)
      show ?thesis
      proof (cases "first_char token \<noteq> CHR '']''")
        case False
        with eq c nz st Go show ?thesis by simp
      next
        case True
        with eq c nz st Go obtain token' next' where
          g: "get_next_pigsty_word buf nxt = Some (token', next')"
          by (auto split: option.splits)
        from get_next_pigsty_word_ge[OF g] have le: "nxt \<le> next'" .
        show ?thesis
        proof (cases all_ok)
          case False
          with eq c nz st Go True g le show ?thesis by simp
        next
          case ok: True
          with eq c nz st Go True g obtain r' n' m' where
            rec: "compile_next_buffered_pigsty_entry_loop buf state' field_map' field_index' token' next'
                    = Some (r', n', m')" and "n = n'"
            by (auto split: option.splits)
          from "1.IH"[OF c nz st Go True g _ ok rec] le \<open>n = n'\<close> show ?thesis by simp
        qed
      qed
    qed
  qed
qed

lemma compile_next_buffered_pigsty_entry_ge:
  assumes "compile_next_buffered_pigsty_entry buf p = Some (r, n, msgs)"
  shows "p \<le> n"
  using assms
  by (auto simp: compile_next_buffered_pigsty_entry_def split: option.splits if_splits
           dest!: get_next_pigsty_word_ge compile_next_buffered_pigsty_entry_loop_ge)

lemma compile_next_buffered_pigsty_entry_gt:
  assumes "compile_next_buffered_pigsty_entry buf p = Some (r, n, msgs)"
    and "char_at buf p = Some c" "c \<noteq> CHR 0x00"
  shows "p < n"
proof -
  from assms(1) obtain token nxt where g: "get_next_pigsty_word buf p = Some (token, nxt)"
    by (auto simp: compile_next_buffered_pigsty_entry_def split: option.splits)
  from get_next_pigsty_word_gt[OF g assms(2,3)] have "p < nxt" .
  moreover from assms(1) g have "nxt \<le> n"
    by (auto simp: compile_next_buffered_pigsty_entry_def split: option.splits if_splits
             dest!: get_next_pigsty_word_ge compile_next_buffered_pigsty_entry_loop_ge)
  ultimately show ?thesis by simp
qed

lemma get_next_pigsty_word_at_nul:
  assumes "char_at buf p = Some (CHR 0x00)"
  shows "get_next_pigsty_word buf p = Some ([], p)"
proof -
  have nb: "\<not> is_pigsty_blank (CHR 0x00)" by (simp add: is_pigsty_blank_def)
  from skip_pigsty_blank_nonblank[OF assms nb] have sb: "skip_pigsty_blank buf p = Some p" .
  from assms have sc: "get_next_pigsty_word_scan buf p = Some p"
    by (subst get_next_pigsty_word_scan.simps) simp
  from sb sc assms show ?thesis
    by (simp add: get_next_pigsty_word_def copy_word_def)
qed

lemma compile_next_buffered_pigsty_entry_at_nul:
  assumes "char_at buf p = Some (CHR 0x00)"
  shows "compile_next_buffered_pigsty_entry buf p = Some (True, p, [])"
  using get_next_pigsty_word_at_nul[OF assms]
  by (simp add: compile_next_buffered_pigsty_entry_def first_char_def)

lemma compile_next_buffered_pigsty_entry_progress:
  assumes "compile_next_buffered_pigsty_entry buf p = Some (r, n, msgs)"
    and "char_at buf n = Some c" "c \<noteq> CHR 0x00"
  shows "p < n"
proof (cases "char_at buf p")
  case None
  with assms(1) show ?thesis
    by (subst (asm) compile_next_buffered_pigsty_entry_def)
       (auto simp: get_next_pigsty_word_def skip_pigsty_blank.simps[of buf p] split: option.splits)
next
  case (Some d)
  show ?thesis
  proof (cases "d = CHR 0x00")
    case True
    with Some compile_next_buffered_pigsty_entry_at_nul[of buf p] assms show ?thesis by auto
  next
    case False
    from compile_next_buffered_pigsty_entry_gt[OF assms(1) Some False] show ?thesis .
  qed
qed

text \<open>\<^verbatim>\<open>compile_pigsty_buffer\<close>: blocks are compiled in order while \<open>all_ok\<close> holds and the
  cursor is not on the terminator.\<close>

function compile_pigsty_buffer_loop :: "string \<Rightarrow> nat \<Rightarrow> (bool \<times> diag list) option" where
  "compile_pigsty_buffer_loop buf data =
     (case compile_next_buffered_pigsty_entry buf data of
        None \<Rightarrow> None
      | Some (all_ok, next_data, msgs) \<Rightarrow>
          if all_ok then
            (case char_at buf next_data of
               None \<Rightarrow> None
             | Some c \<Rightarrow>
                 if c \<noteq> CHR 0x00 then
                   (case compile_pigsty_buffer_loop buf next_data of
                      None \<Rightarrow> None
                    | Some (r, msgs') \<Rightarrow> Some (r, msgs @ msgs'))
                 else Some (all_ok, msgs))
          else Some (all_ok, msgs))"
  by pat_completeness auto
termination
proof (relation "measure (\<lambda>(buf, data). length buf + 1 - data)", goal_cases)
  case 1
  show ?case by simp
next
  case (2 buf data x2 all_ok y next_data msgs c)
  then have "compile_next_buffered_pigsty_entry buf data = Some (all_ok, next_data, msgs)" by simp
  from compile_next_buffered_pigsty_entry_progress[OF this \<open>char_at buf next_data = Some c\<close> \<open>c \<noteq> CHR 0x00\<close>]
  have "data < next_data" .
  moreover from 2 have "next_data < length buf" by (auto simp: char_at_def split: if_splits)
  ultimately show ?case by simp
qed

declare compile_pigsty_buffer_loop.simps [simp del]

definition compile_pigsty_buffer :: "string \<Rightarrow> (bool \<times> diag list) option" where
  "compile_pigsty_buffer buf = compile_pigsty_buffer_loop buf 0"


section \<open>Entry store\<close>

text \<open>
  Modelled from the spec: the types \<^verbatim>\<open>pigsty_entry_ctx\<close> and \<^verbatim>\<open>pigsty_conf_set_ctx\<close>, the
  list functions on them and the value encoders are declared and defined in files that
  are not among the sources. By the spec an encoded value is an integer, an IPv4
  address (four raw octets), one of the five symbolic tags kept as an opaque literal,
  or a string (the text between the quotes, escapes kept verbatim); a field
  configuration is a field index, an encoded value and its length; an entry is a unique
  name and the sequence of its field configurations in source order; the store is the
  sequence of entries in order of declaration.
\<close>

datatype pig_data =
    IntData int
  | Ipv4Data "int list"
  | SymData string
  | StrData string

text \<open>\<open>data\<close> is the pointer \<^verbatim>\<open>field->data\<close>: \<open>None\<close> is \<^verbatim>\<open>NULL\<close>.\<close>

record pigsty_field_ctx =
  index :: pig_field_t
  data :: "pig_data option"
  dsize :: nat

record pigsty_entry_ctx =
  signature_name :: string
  conf :: "pigsty_field_ctx list"

text \<open>A list of entries is a pointer to its first node: the empty list is \<^verbatim>\<open>NULL\<close>.\<close>

type_synonym pigsty_entries = "pigsty_entry_ctx list"

text \<open>Modelled from the spec: \<^verbatim>\<open>get_pigsty_entry_signature_name\<close> finds the entry of a given
  name in the store (\<open>None\<close> is \<^verbatim>\<open>NULL\<close>).\<close>

definition get_pigsty_entry_signature_name :: "string \<Rightarrow> pigsty_entries \<Rightarrow> pigsty_entry_ctx option" where
  "get_pigsty_entry_signature_name name entries = find (\<lambda>e. signature_name e = name) entries"

text \<open>Modelled from the spec: \<^verbatim>\<open>add_signature_to_pigsty_entry\<close> appends a new entry of the
  given name, without field configurations, to the store.\<close>

definition add_signature_to_pigsty_entry :: "pigsty_entries \<Rightarrow> string \<Rightarrow> pigsty_entries" where
  "add_signature_to_pigsty_entry entries name = entries @ [\<lparr>signature_name = name, conf = []\<rparr>]"

text \<open>Modelled from the spec: \<^verbatim>\<open>add_conf_to_pigsty_conf_set\<close> appends a field configuration
  to a configuration set.\<close>

definition add_conf_to_pigsty_conf_set ::
  "pigsty_field_ctx list \<Rightarrow> pig_field_t \<Rightarrow> pig_data option \<Rightarrow> nat \<Rightarrow> pigsty_field_ctx list" where
  "add_conf_to_pigsty_conf_set cs field_index fmt_data fmt_dsize =
     cs @ [\<lparr>index = field_index, data = fmt_data, dsize = fmt_dsize\<rparr>]"

text \<open>Modelled from the spec: \<^verbatim>\<open>to_str\<close> strips the surrounding quotes of a quoted-string
  token.\<close>

definition to_str :: "string \<Rightarrow> string" where
  "to_str token = butlast (tl token)"

text \<open>Modelled from the spec: \<^verbatim>\<open>int_to_voidp\<close> decodes a numeric literal to its narrowest
  sufficient storage (1, 2 or 4 bytes).\<close>

definition int_to_voidp :: "string \<Rightarrow> pig_data \<times> nat" where
  "int_to_voidp d =
     (let v = to_int d
      in (IntData v, if 0 \<le> v \<and> v < 256 then 1 else if 0 \<le> v \<and> v < 65536 then 2 else 4))"

text \<open>Modelled from the spec: \<^verbatim>\<open>ipv4_to_voidp\<close> encodes a dotted quad to its four octets
  and keeps a symbolic tag as an opaque literal.\<close>

fun split_dots :: "string \<Rightarrow> string \<Rightarrow> string list" where
  "split_dots acc [] = [rev acc]"
| "split_dots acc (c # cs) = (if c = CHR ''.'' then rev acc # split_dots [] cs else split_dots (c # acc) cs)"

definition ipv4_to_voidp :: "string \<Rightarrow> pig_data \<times> nat" where
  "ipv4_to_voidp d =
     (if d = ''north-american-ip'' \<or> d = ''south-american-ip'' \<or> d = ''asian-ip'' \<or>
         d = ''european-ip'' \<or> d = ''user-defined-ip''
      then (SymData d, length d)
      else (Ipv4Data (map (\<lambda>g. atoi g mod 256) (split_dots [] d)), 4))"

text \<open>Modelled from the spec: \<^verbatim>\<open>str_to_voidp\<close> keeps the text between the quotes.\<close>

definition str_to_voidp :: "string \<Rightarrow> pig_data \<times> nat" where
  "str_to_voidp d = (StrData (butlast (tl d)), length (butlast (tl d)))"

section \<open>Semantic builder\<close>

text \<open>The first loop of \<^verbatim>\<open>mk_pigsty_entry_from_compiled_buffer\<close> looks for the token
  \<^verbatim>\<open>signature\<close>. It ends with the name redeclared (the function then returns \<^verbatim>\<open>NULL\<close>),
  with the name found, or at the end of the buffer without a name; each result carries
  the cursor \<^verbatim>\<open>*next\<close>.\<close>

datatype signature_seek =
    Redeclared string nat
  | Found string nat
  | NotFound nat

function mk_pigsty_entry_seek ::
  "string \<Rightarrow> pigsty_entries \<Rightarrow> string \<Rightarrow> nat \<Rightarrow> signature_seek option" where
  "mk_pigsty_entry_seek buf entries token next =
     (case char_at buf next of
        None \<Rightarrow> None
      | Some c \<Rightarrow>
          if c = CHR 0x00 then Some (NotFound next)
          else if token = ''signature'' then
            (case get_next_pigsty_word buf next of
               None \<Rightarrow> None
             | Some (eq_token, next1) \<Rightarrow>
                 (case get_next_pigsty_word buf next1 of
                    None \<Rightarrow> None
                  | Some (token2, next2) \<Rightarrow>
                      if get_pigsty_entry_signature_name (to_str token2) entries \<noteq> None
                      then Some (Redeclared (to_str token2) next2)
                      else
                        (case char_at buf next2 of
                           None \<Rightarrow> None
                         | Some c2 \<Rightarrow> Some (Found (to_str token2) next2))))
          else
            (case get_next_pigsty_word buf next of
               None \<Rightarrow> None
             | Some (token', next') \<Rightarrow> mk_pigsty_entry_seek buf entries token' next'))"
  by pat_completeness auto
termination
  by (relation "measure (\<lambda>(buf, entries, token, next). length buf + 1 - next)")
     (auto simp: char_at_def split: if_splits dest!: get_next_pigsty_word_gt[where c = "buf ! next" for buf "next"])

declare mk_pigsty_entry_seek.simps [simp del]

text \<open>The encoding of a field value in the second loop. When no classifier accepts the
  token, \<open>fmt_data\<close> keeps the \<^verbatim>\<open>NULL\<close> it was reset to and \<open>fmt_dsize\<close> its last value.\<close>

definition mk_pigsty_entry_encode :: "string \<Rightarrow> nat \<Rightarrow> (pig_data option \<times> nat) option" where
  "mk_pigsty_entry_encode d fmt_dsize =
     (if verify_int d \<or> verify_hex d then Some (Some (fst (int_to_voidp d)), snd (int_to_voidp d))
      else
        (case verify_ipv4_addr d of
           None \<Rightarrow> None
         | Some is_ipv4 \<Rightarrow>
             if is_ipv4 then Some (Some (fst (ipv4_to_voidp d)), snd (ipv4_to_voidp d))
             else if verify_string d then Some (Some (fst (str_to_voidp d)), snd (str_to_voidp d))
             else Some (None, fmt_dsize)))"

text \<open>The second loop: \<open>cs\<close> is the configuration set of the new entry.\<close>

function mk_pigsty_entry_fields ::
  "string \<Rightarrow> pigsty_field_ctx list \<Rightarrow> nat \<Rightarrow> string \<Rightarrow> nat \<Rightarrow> (pigsty_field_ctx list \<times> nat) option" where
  "mk_pigsty_entry_fields buf cs fmt_dsize token next =
     (case char_at buf next of
        None \<Rightarrow> None
      | Some c \<Rightarrow>
          if c = CHR 0x00 then Some (cs, next)
          else
            (case (case get_pigsty_field_index token of
                     None \<Rightarrow> Some (cs, fmt_dsize, next)
                   | Some field_index \<Rightarrow>
                       if field_index \<noteq> kSignature then
                         (case get_next_pigsty_word buf next of
                            None \<Rightarrow> None
                          | Some (eq_token, next1) \<Rightarrow>
                              (case get_next_pigsty_word buf next1 of
                                 None \<Rightarrow> None
                               | Some (d, next2) \<Rightarrow>
                                   (case mk_pigsty_entry_encode d fmt_dsize of
                                      None \<Rightarrow> None
                                    | Some (fmt_data, fmt_dsize') \<Rightarrow>
                                        Some (add_conf_to_pigsty_conf_set cs field_index fmt_data fmt_dsize',
                                              fmt_dsize', next2))))
                       else Some (cs, fmt_dsize, next)) of
               None \<Rightarrow> None
             | Some (cs', fmt_dsize', next3) \<Rightarrow>
                 (case get_next_pigsty_word buf next3 of
                    None \<Rightarrow> None
                  | Some (token', next') \<Rightarrow>
                      if first_char token' = CHR '']'' then Some (cs', next')
                      else mk_pigsty_entry_fields buf cs' fmt_dsize' token' next')))"
  by pat_completeness auto
termination
proof (relation "measure (\<lambda>(buf, cs, fmt_dsize, token, next). length buf + 1 - next)", goal_cases)
  case 1
  show ?case by simp
next
  case (2 buf cs fmt_dsize token nxt c x2 cs' y fmt_dsize' next3 x2a token' next')
  from 2 have c: "char_at buf nxt = Some c" "c \<noteq> CHR 0x00" by auto
  then have lt: "nxt < length buf" by (auto simp: char_at_def split: if_splits)
  from 2 have g: "get_next_pigsty_word buf next3 = Some (token', next')" by simp
  from get_next_pigsty_word_ge[OF g] have le: "next3 \<le> next'" .
  from 2 have "(case get_pigsty_field_index token of
                     None \<Rightarrow> Some (cs, fmt_dsize, nxt)
                   | Some field_index \<Rightarrow>
                       if field_index \<noteq> kSignature then
                         (case get_next_pigsty_word buf nxt of
                            None \<Rightarrow> None
                          | Some (eq_token, next1) \<Rightarrow>
                              (case get_next_pigsty_word buf next1 of
                                 None \<Rightarrow> None
                               | Some (d, next2) \<Rightarrow>
                                   (case mk_pigsty_entry_encode d fmt_dsize of
                                      None \<Rightarrow> None
                                    | Some (fmt_data, fmt_dsize') \<Rightarrow>
                                        Some (add_conf_to_pigsty_conf_set cs field_index fmt_data fmt_dsize',
                                              fmt_dsize', next2))))
                       else Some (cs, fmt_dsize, nxt)) = Some (cs', fmt_dsize', next3)"
    by simp
  then have "nxt \<le> next3"
    by (auto split: option.splits if_splits dest!: get_next_pigsty_word_ge)
  moreover have "nxt \<noteq> next'"
  proof
    assume e: "nxt = next'"
    with le \<open>nxt \<le> next3\<close> have "next3 = nxt" by simp
    with g have "get_next_pigsty_word buf nxt = Some (token', next')" by simp
    from get_next_pigsty_word_gt[OF this c] e show False by simp
  qed
  ultimately show ?case using le lt by simp
qed

declare mk_pigsty_entry_fields.simps [simp del]

fun signature_seek_next :: "signature_seek \<Rightarrow> nat" where
  "signature_seek_next (Redeclared name n) = n"
| "signature_seek_next (Found name n) = n"
| "signature_seek_next (NotFound n) = n"

lemma mk_pigsty_entry_seek_ge:
  "mk_pigsty_entry_seek buf entries token next = Some r \<Longrightarrow> next \<le> signature_seek_next r"
proof (induction buf entries token "next" rule: mk_pigsty_entry_seek.induct)
  case (1 buf entries token nxt)
  note eq = "1.prems"[unfolded mk_pigsty_entry_seek.simps[of buf entries token nxt]]
  from eq obtain c where c: "char_at buf nxt = Some c" by (auto split: option.splits)
  show ?case
  proof (cases "c = CHR 0x00")
    case True
    with eq c show ?thesis by auto
  next
    case nz: False
    show ?thesis
    proof (cases "token = ''signature''")
      case True
      with eq c nz show ?thesis
        by (auto split: option.splits if_splits dest!: get_next_pigsty_word_ge)
    next
      case False
      with eq c nz obtain token' next' where g: "get_next_pigsty_word buf nxt = Some (token', next')"
        and rec: "mk_pigsty_entry_seek buf entries token' next' = Some r"
        by (auto split: option.splits)
      from "1.IH"[OF c nz False g _ rec] get_next_pigsty_word_ge[OF g] show ?thesis by simp
    qed
  qed
qed


lemma mk_pigsty_entry_fields_ge:
  "mk_pigsty_entry_fields buf cs fmt_dsize token next = Some (cs', n) \<Longrightarrow> next \<le> n"
proof (induction buf cs fmt_dsize token "next" rule: mk_pigsty_entry_fields.induct)
  case (1 buf cs fmt_dsize token nxt)
  note eq = "1.prems"[unfolded mk_pigsty_entry_fields.simps[of buf cs fmt_dsize token nxt]]
  from eq obtain c where c: "char_at buf nxt = Some c" by (auto split: option.splits)
  show ?case
  proof (cases "c = CHR 0x00")
    case True
    with eq c show ?thesis by auto
  next
    case nz: False
    let ?inner = "(case get_pigsty_field_index token of
                     None \<Rightarrow> Some (cs, fmt_dsize, nxt)
                   | Some field_index \<Rightarrow>
                       if field_index \<noteq> kSignature then
                         (case get_next_pigsty_word buf nxt of
                            None \<Rightarrow> None
                          | Some (eq_token, next1) \<Rightarrow>
                              (case get_next_pigsty_word buf next1 of
                                 None \<Rightarrow> None
                               | Some (d, next2) \<Rightarrow>
                                   (case mk_pigsty_entry_encode d fmt_dsize of
                                      None \<Rightarrow> None
                                    | Some (fmt_data, fmt_dsize') \<Rightarrow>
                                        Some (add_conf_to_pigsty_conf_set cs field_index fmt_data fmt_dsize',
                                              fmt_dsize', next2))))
                       else Some (cs, fmt_dsize, nxt))"
    from eq c nz obtain cs1 ds1 next3 where inner: "?inner = Some (cs1, ds1, next3)"
      by (cases ?inner) auto
    then have le3: "nxt \<le> next3"
      by (auto split: option.splits if_splits dest!: get_next_pigsty_word_ge)
    from eq c nz inner obtain token' next' where g: "get_next_pigsty_word buf next3 = Some (token', next')"
      by (auto split: option.splits)
    from get_next_pigsty_word_ge[OF g] have le': "next3 \<le> next'" .
    show ?thesis
    proof (cases "first_char token' = CHR '']''")
      case True
      with eq c nz inner g le3 le' show ?thesis by auto
    next
      case False
      with eq c nz inner g have rec: "mk_pigsty_entry_fields buf cs1 ds1 token' next' = Some (cs', n)"
        by auto
      from "1.IH"[OF c nz inner refl refl g refl False rec] le3 le' show ?thesis
        by simp
    qed
  qed
qed

text \<open>Modelled from the spec: \<^verbatim>\<open>get_pigsty_entry_tail\<close> yields the last entry of the store;
  here the store with that entry replaced by the entry carrying the configuration set
  the second loop has built.\<close>

definition set_tail_conf :: "pigsty_entries \<Rightarrow> pigsty_field_ctx list \<Rightarrow> pigsty_entries" where
  "set_tail_conf entries cs = butlast entries @ [(last entries)\<lparr>conf := cs\<rparr>]"

text \<open>\<^verbatim>\<open>mk_pigsty_entry_from_compiled_buffer\<close> returns the store, the cursor \<^verbatim>\<open>*next\<close> and
  the messages. Without a \<^verbatim>\<open>signature\<close> token before the end of the buffer it prints its
  message and returns the store it was given.\<close>

definition mk_pigsty_entry_from_compiled_buffer ::
  "string \<Rightarrow> pigsty_entries \<Rightarrow> nat \<Rightarrow> (pigsty_entries \<times> nat \<times> diag list) option" where
  "mk_pigsty_entry_from_compiled_buffer buf entries buffer =
     (case get_next_pigsty_word buf buffer of
        None \<Rightarrow> None
      | Some (token, next) \<Rightarrow>
          (case mk_pigsty_entry_seek buf entries token next of
             None \<Rightarrow> None
           | Some (Redeclared name n) \<Rightarrow> Some ([], n, [PanicSignatureRedeclared name])
           | Some (NotFound n) \<Rightarrow> Some (entries, n, [PanicSignatureFieldMissing])
           | Some (Found name n) \<Rightarrow>
               (let entries' = add_signature_to_pigsty_entry entries name
                in case mk_pigsty_entry_fields buf (conf (last entries')) 0 token next of
                     None \<Rightarrow> None
                   | Some (cs, n') \<Rightarrow> Some (set_tail_conf entries' cs, n', []))))"

lemma mk_pigsty_entry_from_compiled_buffer_progress:
  assumes mk: "mk_pigsty_entry_from_compiled_buffer buf entries p = Some (entries', n, msgs)"
    and c: "char_at buf n = Some c" and nz: "c \<noteq> CHR 0x00"
  shows "p < n"
proof -
  from mk obtain token nxt where g: "get_next_pigsty_word buf p = Some (token, nxt)"
    by (auto simp: mk_pigsty_entry_from_compiled_buffer_def split: option.splits)
  from mk g obtain r where sk: "mk_pigsty_entry_seek buf entries token nxt = Some r"
    by (auto simp: mk_pigsty_entry_from_compiled_buffer_def split: option.splits)
  from mk_pigsty_entry_seek_ge[OF sk] have sge: "nxt \<le> signature_seek_next r" .
  have nn: "nxt \<le> n"
  proof (cases r)
    case (Redeclared name m)
    with mk g sk sge show ?thesis
      by (auto simp: mk_pigsty_entry_from_compiled_buffer_def)
  next
    case (NotFound m)
    with mk g sk sge show ?thesis
      by (auto simp: mk_pigsty_entry_from_compiled_buffer_def)
  next
    case (Found name m)
    with mk g sk show ?thesis
      by (auto simp: mk_pigsty_entry_from_compiled_buffer_def Let_def split: option.splits
               dest!: mk_pigsty_entry_fields_ge)
  qed
  from g obtain d where d: "char_at buf p = Some d"
    by (auto simp: get_next_pigsty_word_def skip_pigsty_blank.simps[of buf p] split: option.splits)
  show ?thesis
  proof (cases "d = CHR 0x00")
    case False
    from get_next_pigsty_word_gt[OF g d False] nn show ?thesis by simp
  next
    case True
    with d get_next_pigsty_word_at_nul[of buf p] g have tk: "token = []" "nxt = p" by auto
    from d True tk have "mk_pigsty_entry_seek buf entries token nxt = Some (NotFound p)"
      by (subst mk_pigsty_entry_seek.simps) simp
    with mk g tk have "n = p"
      by (auto simp: mk_pigsty_entry_from_compiled_buffer_def)
    with c nz d True show ?thesis by simp
  qed
qed

text \<open>\<^verbatim>\<open>make_pigsty_data_from_loaded_data\<close>: entries are built block after block while the
  cursor is not on the terminator and the store is not \<^verbatim>\<open>NULL\<close>.\<close>

function make_pigsty_data_loop ::
  "string \<Rightarrow> pigsty_entries \<Rightarrow> nat \<Rightarrow> (pigsty_entries \<times> diag list) option" where
  "make_pigsty_data_loop buf entry buffer =
     (case mk_pigsty_entry_from_compiled_buffer buf entry buffer of
        None \<Rightarrow> None
      | Some (entry', next_data, msgs) \<Rightarrow>
          (case char_at buf next_data of
             None \<Rightarrow> None
           | Some c \<Rightarrow>
               if c \<noteq> CHR 0x00 \<and> entry' \<noteq> [] then
                 (case make_pigsty_data_loop buf entry' next_data of
                    None \<Rightarrow> None
                  | Some (r, msgs') \<Rightarrow> Some (r, msgs @ msgs'))
               else Some (entry', msgs)))"
  by pat_completeness auto
termination
proof (relation "measure (\<lambda>(buf, entry, buffer). length buf + 1 - buffer)", goal_cases)
  case 1
  show ?case by simp
next
  case (2 buf entry buffer x2 entry' y next_data msgs c)
  then have mk: "mk_pigsty_entry_from_compiled_buffer buf entry buffer = Some (entry', next_data, msgs)"
    and c: "char_at buf next_data = Some c" "c \<noteq> CHR 0x00" by auto
  from mk_pigsty_entry_from_compiled_buffer_progress[OF mk c] have "buffer < next_data" .
  moreover from c have "next_data < length buf" by (auto simp: char_at_def split: if_splits)
  ultimately show ?case by simp
qed

declare make_pigsty_data_loop.simps [simp del]

definition make_pigsty_data_from_loaded_data ::
  "pigsty_entries \<Rightarrow> string \<Rightarrow> (pigsty_entries \<times> diag list) option" where
  "make_pigsty_data_from_loaded_data entry buffer = make_pigsty_data_loop buffer entry 0"

section \<open>Required-field validation\<close>

text \<open>
  Modelled from the spec: the read \<^verbatim>\<open>*(int *)cp->field->data\<close> yields the number an
  integer value encodes. What it yields on the bytes of an address or of a string
  depends on the layout of a buffer that is not modelled: \<open>None\<close>.
\<close>

fun int_of_data :: "pig_data \<Rightarrow> int option" where
  "int_of_data (IntData v) = Some v"
| "int_of_data (Ipv4Data bs) = None"
| "int_of_data (SymData s) = None"
| "int_of_data (StrData s) = None"

text \<open>\<^verbatim>\<open>verify_required_datagram_fields\<close>: \<open>present_fields\<close> marks the indices of the set;
  the required fields are checked in order while \<open>retval\<close> is 1.\<close>

fun verify_required_datagram_fields ::
  "pigsty_field_ctx list \<Rightarrow> pig_field_t list \<Rightarrow> bool \<times> diag list" where
  "verify_required_datagram_fields cs [] = (True, [])"
| "verify_required_datagram_fields cs (f # fs) =
     (if f \<in> set (map index cs) then verify_required_datagram_fields cs fs
      else (False, [ErrorFieldRequired (field_label f)]))"

definition verify_required_fields_ipv4 :: "pigsty_field_ctx list \<Rightarrow> bool \<times> diag list" where
  "verify_required_fields_ipv4 ip4_set =
     verify_required_datagram_fields ip4_set [kIpv4_src, kIpv4_dst, kIpv4_protocol]"

text \<open>The loop that looks for the value of \<^verbatim>\<open>ip.version\<close>: it runs while \<open>ip_version\<close> is 0.\<close>

fun verify_required_fields_ip_version :: "int \<Rightarrow> pigsty_field_ctx list \<Rightarrow> int option" where
  "verify_required_fields_ip_version ip_version [] = Some ip_version"
| "verify_required_fields_ip_version ip_version (cp # cs) =
     (if ip_version \<noteq> 0 then Some ip_version
      else if index cp = kIpv4_version \<and> data cp \<noteq> None then
        (case int_of_data (the (data cp)) of
           None \<Rightarrow> None
         | Some v \<Rightarrow> verify_required_fields_ip_version v cs)
      else verify_required_fields_ip_version ip_version cs)"

text \<open>The loop that looks for the value of \<^verbatim>\<open>ip.protocol\<close>: it runs while
  \<open>transport_layer\<close> is -1.\<close>

fun verify_required_fields_transport_layer :: "int \<Rightarrow> pigsty_field_ctx list \<Rightarrow> int option" where
  "verify_required_fields_transport_layer transport_layer [] = Some transport_layer"
| "verify_required_fields_transport_layer transport_layer (cp # cs) =
     (if transport_layer \<noteq> - 1 then Some transport_layer
      else if index cp = kIpv4_protocol \<and> data cp \<noteq> None then
        (case int_of_data (the (data cp)) of
           None \<Rightarrow> None
         | Some v \<Rightarrow> verify_required_fields_transport_layer v cs)
      else verify_required_fields_transport_layer transport_layer cs)"

text \<open>The indices the last loop of \<^verbatim>\<open>verify_required_fields\<close> tests for (\<^verbatim>\<open>kUdp_src\<close> stands
  twice in the source).\<close>

definition is_transport_field :: "pig_field_t \<Rightarrow> bool" where
  "is_transport_field i =
     (i = kTcp_src \<or> i = kTcp_dst \<or> i = kTcp_seq \<or> i = kTcp_ackno \<or> i = kTcp_size \<or>
      i = kTcp_reserv \<or> i = kTcp_urg \<or> i = kTcp_ack \<or> i = kTcp_psh \<or> i = kTcp_rst \<or>
      i = kTcp_syn \<or> i = kTcp_fin \<or> i = kTcp_wsize \<or> i = kTcp_checksum \<or>
      i = kTcp_urgp \<or> i = kTcp_payload \<or> i = kUdp_src \<or> i = kUdp_dst \<or>
      i = kUdp_size \<or> i = kUdp_checksum \<or> i = kUdp_payload \<or> i = kUdp_src \<or>
      i = kIcmp_type \<or> i = kIcmp_code \<or> i = kIcmp_checksum \<or> i = kIcmp_payload)"

fun verify_required_fields_no_transport :: "bool \<Rightarrow> pigsty_field_ctx list \<Rightarrow> bool" where
  "verify_required_fields_no_transport retval [] = retval"
| "verify_required_fields_no_transport retval (cp # cs) =
     (if \<not> retval then retval
      else verify_required_fields_no_transport (\<not> is_transport_field (index cp)) cs)"

text \<open>The body of the loop over the entries, entered with \<open>retval = 1\<close>.\<close>

definition verify_required_fields_entry :: "pigsty_entry_ctx \<Rightarrow> (bool \<times> diag list) option" where
  "verify_required_fields_entry ep =
     (case verify_required_fields_ip_version 0 (conf ep) of
        None \<Rightarrow> None
      | Some ip_version \<Rightarrow>
          (let (retval1, msgs1) =
                 (if ip_version = 0 then (False, [PanicIpVersionMissing (signature_name ep)])
                  else (True, []));
               (retval2, msgs2) =
                 (if retval1 then
                    (if ip_version = 4 then verify_required_fields_ipv4 (conf ep)
                     else (False, []))
                  else (retval1, []))
           in if \<not> retval2 then Some (False, msgs1 @ msgs2 @ [PanicOnSignature (signature_name ep)])
              else
                (case verify_required_fields_transport_layer (- 1) (conf ep) of
                   None \<Rightarrow> None
                 | Some transport_layer \<Rightarrow>
                     if transport_layer > - 1 then Some (True, msgs1 @ msgs2)
                     else
                       (let retval3 = verify_required_fields_no_transport retval2 (conf ep)
                        in Some (retval3,
                                 msgs1 @ msgs2 @
                                 (if \<not> retval3 then [PanicTransportFields (signature_name ep)]
                                  else []))))))"

text \<open>\<^verbatim>\<open>verify_required_fields\<close>: the loop over the entries runs while \<open>retval\<close> is 1.\<close>

fun verify_required_fields_loop :: "bool \<Rightarrow> pigsty_entries \<Rightarrow> (bool \<times> diag list) option" where
  "verify_required_fields_loop retval [] = Some (retval, [])"
| "verify_required_fields_loop retval (ep # eps) =
     (if \<not> retval then Some (retval, [])
      else
        (case verify_required_fields_entry ep of
           None \<Rightarrow> None
         | Some (retval', msgs) \<Rightarrow>
             (case verify_required_fields_loop retval' eps of
                None \<Rightarrow> None
              | Some (r, msgs') \<Rightarrow> Some (r, msgs @ msgs'))))"

definition verify_required_fields :: "pigsty_entries \<Rightarrow> (bool \<times> diag list) option" where
  "verify_required_fields entry = verify_required_fields_loop True entry"

section \<open>Loader\<close>

text \<open>\<^verbatim>\<open>load_pigsty_data_from_file\<close>. The file is read by \<^verbatim>\<open>get_pigsty_file_data\<close>, which
  yields its bytes, followed by a terminator, or \<^verbatim>\<open>NULL\<close> on an i/o error: the model takes
  that result, \<open>Some\<close> of the bytes or \<open>None\<close>, in place of the path. The result is the
  returned store (the empty list is \<^verbatim>\<open>NULL\<close>) and the messages printed; \<open>None\<close> stands for
  a run with undefined behaviour.\<close>

definition load_pigsty_data_from_file ::
  "pigsty_entries \<Rightarrow> string option \<Rightarrow> (pigsty_entries \<times> diag list) option" where
  "load_pigsty_data_from_file entry file_data =
     (case file_data of
        None \<Rightarrow> Some ([], [PanicIOError])
      | Some d \<Rightarrow>
          (case compile_pigsty_buffer d of
             None \<Rightarrow> None
           | Some (all_ok, msgs1) \<Rightarrow>
               if \<not> all_ok then Some ([], msgs1 @ [PanicInvalidSignature])
               else
                 (case make_pigsty_data_from_loaded_data entry d of
                    None \<Rightarrow> None
                  | Some (entry', msgs2) \<Rightarrow>
                      (case verify_required_fields entry' of
                         None \<Rightarrow> None
                       | Some (ok, msgs3) \<Rightarrow>
                           Some (if \<not> ok then [] else entry', msgs1 @ msgs2 @ msgs3)))))"

subsection \<open>Properties of the required-field validation\<close>

lemma verify_required_fields_ip_version_absent:
  "kIpv4_version \<notin> set (map index cs) \<Longrightarrow> verify_required_fields_ip_version 0 cs = Some 0"
  by (induction cs) auto

lemma verify_required_fields_entry_no_version:
  assumes "kIpv4_version \<notin> set (map index (conf ep))"
  shows "verify_required_fields_entry ep =
           Some (False, [PanicIpVersionMissing (signature_name ep), PanicOnSignature (signature_name ep)])"
  using verify_required_fields_ip_version_absent[OF assms]
  by (simp add: verify_required_fields_entry_def)

lemma verify_required_fields_loop_False:
  "verify_required_fields_loop False es = Some (False, [])"
  by (cases es) auto

lemma verify_required_fields_loop_append:
  "verify_required_fields_loop r (es1 @ es2) =
     (case verify_required_fields_loop r es1 of
        None \<Rightarrow> None
      | Some (r1, m1) \<Rightarrow>
          (case verify_required_fields_loop r1 es2 of
             None \<Rightarrow> None
           | Some (r2, m2) \<Rightarrow> Some (r2, m1 @ m2)))"
proof (induction es1 arbitrary: r)
  case Nil
  show ?case by (auto split: option.splits)
next
  case (Cons e es1)
  show ?case
  proof (cases r)
    case False
    then show ?thesis by (simp add: verify_required_fields_loop_False)
  next
    case True
    then show ?thesis
      by (auto simp: Cons.IH split: option.splits)
  qed
qed

lemma verify_required_fields_loop_failing_entry:
  assumes "verify_required_fields_entry ep = Some (False, m)"
  shows "verify_required_fields_loop r (ep # es) = Some (False, if r then m else [])"
  using assms by (cases r) (auto simp: verify_required_fields_loop_False)

lemma verify_required_fields_loop_never_True:
  assumes "verify_required_fields_entry ep = Some (False, m)"
  shows "verify_required_fields_loop r (es1 @ ep # es2) \<noteq> Some (True, msgs)"
proof -
  have "\<And>r1. verify_required_fields_loop r1 (ep # es2) = Some (False, if r1 then m else [])"
    using assms by (rule verify_required_fields_loop_failing_entry)
  then show ?thesis
    by (auto simp: verify_required_fields_loop_append split: option.splits)
qed

lemma verify_required_fields_loop_passing_prefix:
  assumes "\<forall>e \<in> set es1. \<exists>m. verify_required_fields_entry e = Some (True, m)"
  shows "\<exists>m1. verify_required_fields_loop True es1 = Some (True, m1)"
  using assms
proof (induction es1)
  case Nil
  show ?case by simp
next
  case (Cons e es1)
  then obtain m m1 where "verify_required_fields_entry e = Some (True, m)"
    "verify_required_fields_loop True es1 = Some (True, m1)" by auto
  then show ?case by simp
qed

lemma verify_required_fields_missing_version:
  assumes nv: "kIpv4_version \<notin> set (map index (conf ep))"
  shows "verify_required_fields (es1 @ ep # es2) \<noteq> Some (True, msgs)"
    and "(\<forall>e \<in> set es1. \<exists>m. verify_required_fields_entry e = Some (True, m)) \<Longrightarrow>
           \<exists>m1. verify_required_fields (es1 @ ep # es2) =
             Some (False, m1 @ [PanicIpVersionMissing (signature_name ep), PanicOnSignature (signature_name ep)])"
proof -
  note f = verify_required_fields_entry_no_version[OF nv]
  show "verify_required_fields (es1 @ ep # es2) \<noteq> Some (True, msgs)"
    unfolding verify_required_fields_def
    by (rule verify_required_fields_loop_never_True[OF f])
  assume "\<forall>e \<in> set es1. \<exists>m. verify_required_fields_entry e = Some (True, m)"
  from verify_required_fields_loop_passing_prefix[OF this]
  obtain m1 where "verify_required_fields_loop True es1 = Some (True, m1)" by blast
  with verify_required_fields_loop_failing_entry[OF f, of True es2]
  show "\<exists>m1. verify_required_fields (es1 @ ep # es2) =
             Some (False, m1 @ [PanicIpVersionMissing (signature_name ep), PanicOnSignature (signature_name ep)])"
    by (simp add: verify_required_fields_def verify_required_fields_loop_append)
qed


lemma verify_required_fields_ip_version_insert:
  "index p \<noteq> kIpv4_version \<Longrightarrow>
     verify_required_fields_ip_version a (xs @ p # ys) = verify_required_fields_ip_version a (xs @ ys)"
proof (induction xs arbitrary: a)
  case Nil
  then show ?case by (cases ys) auto
next
  case (Cons x xs)
  then show ?case by (auto split: option.splits)
qed

lemma verify_required_fields_transport_layer_set:
  "v \<noteq> - 1 \<Longrightarrow> verify_required_fields_transport_layer v cs = Some v"
  by (cases cs) auto

lemma verify_required_fields_transport_layer_found:
  assumes "kIpv4_protocol \<notin> set (map index xs)" "index p = kIpv4_protocol"
    "data p = Some (IntData v)" "v \<noteq> - 1"
  shows "verify_required_fields_transport_layer (- 1) (xs @ p # ys) = Some v"
  using assms
  by (induction xs) (auto simp: verify_required_fields_transport_layer_set)

lemma verify_required_datagram_fields_present:
  "set fs \<subseteq> set (map index cs) \<Longrightarrow> verify_required_datagram_fields cs fs = (True, [])"
  by (induction fs) auto

lemma verify_required_datagram_fields_missing:
  "f \<in> set fs \<Longrightarrow> f \<notin> set (map index cs) \<Longrightarrow> \<not> fst (verify_required_datagram_fields cs fs)"
  by (induction fs) auto

lemma verify_required_fields_entry_no_protocol:
  assumes "kIpv4_protocol \<notin> set (map index (conf ep))"
  shows "verify_required_fields_entry ep \<noteq> Some (True, m)"
proof (cases "verify_required_fields_ip_version 0 (conf ep)")
  case None
  then show ?thesis by (simp add: verify_required_fields_entry_def)
next
  case (Some ip_version)
  have "\<not> fst (verify_required_fields_ipv4 (conf ep))"
    unfolding verify_required_fields_ipv4_def
    by (rule verify_required_datagram_fields_missing[OF _ assms]) simp
  then obtain m4 where "verify_required_fields_ipv4 (conf ep) = (False, m4)"
    by (cases "verify_required_fields_ipv4 (conf ep)") auto
  with Some show ?thesis
    by (simp add: verify_required_fields_entry_def)
qed

lemma verify_required_fields_loop_not_True:
  assumes "\<And>m. verify_required_fields_entry ep \<noteq> Some (True, m)"
  shows "verify_required_fields_loop r (es1 @ ep # es2) \<noteq> Some (True, msgs)"
proof -
  have "verify_required_fields_loop r1 (ep # es2) \<noteq> Some (True, m')" for r1 m'
  proof (cases r1)
    case False
    then show ?thesis by simp
  next
    case True
    show ?thesis
    proof (cases "verify_required_fields_entry ep")
      case None
      with True show ?thesis by simp
    next
      case (Some a)
      obtain ok m where a: "a = (ok, m)" by (cases a)
      with Some assms[of m] have "\<not> ok" by auto
      with True Some a show ?thesis by (simp add: verify_required_fields_loop_False)
    qed
  qed
  note tail = this
  show ?thesis
  proof (cases "verify_required_fields_loop r es1")
    case None
    then show ?thesis by (simp add: verify_required_fields_loop_append)
  next
    case (Some a)
    obtain r1 m1 where a: "a = (r1, m1)" by (cases a)
    show ?thesis
    proof (cases "verify_required_fields_loop r1 (ep # es2)")
      case None
      with Some a show ?thesis by (simp add: verify_required_fields_loop_append)
    next
      case s2: (Some b)
      obtain r2 m2 where b: "b = (r2, m2)" by (cases b)
      with s2 tail[of r1 m2] have "\<not> r2" by auto
      with Some a s2 b show ?thesis by (simp add: verify_required_fields_loop_append)
    qed
  qed
qed

lemma verify_required_fields_entry_with_protocol:
  assumes v4: "verify_required_fields_ip_version 0 (xs @ ys) = Some 4"
    and src: "kIpv4_src \<in> set (map index (xs @ ys))"
    and dst: "kIpv4_dst \<in> set (map index (xs @ ys))"
    and np: "kIpv4_protocol \<notin> set (map index (xs @ ys))"
    and p: "index p = kIpv4_protocol" "data p = Some (IntData v)" "0 \<le> v"
  shows "verify_required_fields_entry (ep\<lparr>conf := xs @ p # ys\<rparr>) = Some (True, [])"
proof -
  from p have "index p \<noteq> kIpv4_version" by simp
  from verify_required_fields_ip_version_insert[OF this] v4
  have ver: "verify_required_fields_ip_version 0 (xs @ p # ys) = Some 4" by simp
  from src dst p have "set [kIpv4_src, kIpv4_dst, kIpv4_protocol] \<subseteq> set (map index (xs @ p # ys))"
    by auto
  from verify_required_datagram_fields_present[OF this]
  have req: "verify_required_fields_ipv4 (xs @ p # ys) = (True, [])"
    by (simp add: verify_required_fields_ipv4_def)
  from np have "kIpv4_protocol \<notin> set (map index xs)" by simp
  from verify_required_fields_transport_layer_found[OF this p(1,2)] p(3)
  have tl: "verify_required_fields_transport_layer (- 1) (xs @ p # ys) = Some v" by simp
  from ver req tl p(3) show ?thesis
    by (simp add: verify_required_fields_entry_def)
qed

subsection \<open>The course of the builder\<close>

text \<open>\<open>builder_reaches buf s (entry, p)\<close>: started in the state \<open>s\<close> (a store and a cursor),
  the loop of \<^verbatim>\<open>make_pigsty_data_from_loaded_data\<close> comes to call
  \<^verbatim>\<open>mk_pigsty_entry_from_compiled_buffer\<close> with the store \<open>entry\<close> and the cursor \<open>p\<close>.\<close>

inductive builder_reaches ::
  "string \<Rightarrow> pigsty_entries \<times> nat \<Rightarrow> pigsty_entries \<times> nat \<Rightarrow> bool" for buf where
  start: "builder_reaches buf s s"
| step: "builder_reaches buf s (entry, p) \<Longrightarrow>
         mk_pigsty_entry_from_compiled_buffer buf entry p = Some (entry', p', msgs) \<Longrightarrow>
         char_at buf p' = Some c \<Longrightarrow> c \<noteq> CHR 0x00 \<Longrightarrow> entry' \<noteq> [] \<Longrightarrow>
         builder_reaches buf s (entry', p')"

lemma builder_reaches_result:
  assumes "builder_reaches buf (e0, p0) (e, p)"
  shows "\<exists>msgs0. make_pigsty_data_loop buf e0 p0 =
           (case make_pigsty_data_loop buf e p of
              None \<Rightarrow> None
            | Some (r, m) \<Rightarrow> Some (r, msgs0 @ m))"
  using assms
proof (induction "(e0, p0)" "(e, p)" arbitrary: e p rule: builder_reaches.induct)
  case start
  have "make_pigsty_data_loop buf e0 p0 =
           (case make_pigsty_data_loop buf e0 p0 of None \<Rightarrow> None | Some (r, m) \<Rightarrow> Some (r, [] @ m))"
    by (simp split: option.splits)
  then show ?case by blast
next
  case (step entry p entry' p' msgs c)
  from step.hyps(2) obtain msgs0 where
    ih: "make_pigsty_data_loop buf e0 p0 =
           (case make_pigsty_data_loop buf entry p of None \<Rightarrow> None | Some (r, m) \<Rightarrow> Some (r, msgs0 @ m))"
    by blast
  from step.hyps(3-6) have
    "make_pigsty_data_loop buf entry p =
       (case make_pigsty_data_loop buf entry' p' of None \<Rightarrow> None | Some (r, m) \<Rightarrow> Some (r, msgs @ m))"
    by (subst make_pigsty_data_loop.simps) simp
  with ih have "make_pigsty_data_loop buf e0 p0 =
           (case make_pigsty_data_loop buf entry' p' of None \<Rightarrow> None
            | Some (r, m) \<Rightarrow> Some (r, (msgs0 @ msgs) @ m))"
    by (simp split: option.splits)
  then show ?case by blast
qed

lemma get_pigsty_entry_signature_name_iff:
  "get_pigsty_entry_signature_name name entries \<noteq> None \<longleftrightarrow> name \<in> set (map signature_name entries)"
  by (auto simp: get_pigsty_entry_signature_name_def find_None_iff)

lemma mk_pigsty_entry_seek_Redeclared:
  assumes "mk_pigsty_entry_seek buf [] token nxt = Some (Found name n)"
    and "name \<in> set (map signature_name entries)"
  shows "mk_pigsty_entry_seek buf entries token nxt = Some (Redeclared name n)"
  using assms
proof (induction buf entries token nxt rule: mk_pigsty_entry_seek.induct)
  case (1 buf entries token nxt)
  note eq = "1.prems"(1)[unfolded mk_pigsty_entry_seek.simps[of buf "[]" token nxt]]
  from eq obtain c where c: "char_at buf nxt = Some c" by (auto split: option.splits)
  from eq c have nz: "c \<noteq> CHR 0x00" by (auto split: if_splits)
  show ?case
  proof (cases "token = ''signature''")
    case True
    with eq c nz obtain eq_token next1 token2 where
      g1: "get_next_pigsty_word buf nxt = Some (eq_token, next1)"
      and g2: "get_next_pigsty_word buf next1 = Some (token2, n)"
      and nm: "name = to_str token2"
      by (auto simp: get_pigsty_entry_signature_name_def split: option.splits if_splits)
    from "1.prems"(2) have "get_pigsty_entry_signature_name name entries \<noteq> None"
      by (rule get_pigsty_entry_signature_name_iff[THEN iffD2])
    with True c nz g1 g2 nm show ?thesis
      by (subst mk_pigsty_entry_seek.simps) simp
  next
    case False
    with eq c nz obtain token' next' where g: "get_next_pigsty_word buf nxt = Some (token', next')"
      and rec: "mk_pigsty_entry_seek buf [] token' next' = Some (Found name n)"
      by (auto split: option.splits)
    from "1.IH"[OF c nz False g _ rec "1.prems"(2)] have "mk_pigsty_entry_seek buf entries token' next' = Some (Redeclared name n)"
      by simp
    with False c nz g show ?thesis
      by (subst mk_pigsty_entry_seek.simps) simp
  qed
qed

lemma mk_pigsty_entry_seek_Found_defined:
  "mk_pigsty_entry_seek buf entries token nxt = Some (Found name n) \<Longrightarrow>
     char_at buf n \<noteq> None \<and> get_pigsty_entry_signature_name name entries = None"
proof (induction buf entries token nxt rule: mk_pigsty_entry_seek.induct)
  case (1 buf entries token nxt)
  note eq = "1.prems"[unfolded mk_pigsty_entry_seek.simps[of buf entries token nxt]]
  from eq obtain c where c: "char_at buf nxt = Some c" by (auto split: option.splits)
  from eq c have nz: "c \<noteq> CHR 0x00" by (auto split: if_splits)
  show ?case
  proof (cases "token = ''signature''")
    case True
    with eq c nz show ?thesis
      by (auto split: option.splits if_splits)
  next
    case False
    with eq c nz obtain token' next' where g: "get_next_pigsty_word buf nxt = Some (token', next')"
      and rec: "mk_pigsty_entry_seek buf entries token' next' = Some (Found name n)"
      by (auto split: option.splits)
    from "1.IH"[OF c nz False g _ rec] show ?thesis by simp
  qed
qed

lemma make_pigsty_data_loop_Redeclared:
  assumes tok: "get_next_pigsty_word buf p = Some (token, nxt)"
    and decl: "mk_pigsty_entry_seek buf [] token nxt = Some (Found name n)"
    and dup: "name \<in> set (map signature_name es)"
  shows "make_pigsty_data_loop buf es p = Some ([], [PanicSignatureRedeclared name])"
proof -
  from mk_pigsty_entry_seek_Redeclared[OF decl dup]
  have "mk_pigsty_entry_seek buf es token nxt = Some (Redeclared name n)" .
  with tok have mk: "mk_pigsty_entry_from_compiled_buffer buf es p = Some ([], n, [PanicSignatureRedeclared name])"
    by (simp add: mk_pigsty_entry_from_compiled_buffer_def)
  from mk_pigsty_entry_seek_Found_defined[OF decl] obtain c where "char_at buf n = Some c" by auto
  with mk show ?thesis by (subst make_pigsty_data_loop.simps) simp
qed

lemma set_tail_conf_names:
  "entries \<noteq> [] \<Longrightarrow> map signature_name (set_tail_conf entries cs) = map signature_name entries"
proof -
  assume "entries \<noteq> []"
  then have "entries = butlast entries @ [last entries]" by simp
  then have "map signature_name entries = map signature_name (butlast entries) @ [signature_name (last entries)]"
    by (metis list.simps(8,9) map_append)
  then show ?thesis by (simp add: set_tail_conf_def)
qed

lemma mk_pigsty_entry_from_compiled_buffer_names:
  assumes "mk_pigsty_entry_from_compiled_buffer buf entries p = Some (entries', n, msgs)"
    and "distinct (map signature_name entries)"
  shows "distinct (map signature_name entries')"
proof -
  from assms(1) obtain token nxt r where g: "get_next_pigsty_word buf p = Some (token, nxt)"
    and sk: "mk_pigsty_entry_seek buf entries token nxt = Some r"
    by (auto simp: mk_pigsty_entry_from_compiled_buffer_def split: option.splits)
  show ?thesis
  proof (cases r)
    case (Redeclared name m)
    with assms g sk show ?thesis by (auto simp: mk_pigsty_entry_from_compiled_buffer_def)
  next
    case (NotFound m)
    with assms g sk show ?thesis by (auto simp: mk_pigsty_entry_from_compiled_buffer_def)
  next
    case (Found name m)
    with sk mk_pigsty_entry_seek_Found_defined[of buf entries token nxt name m]
    have "get_pigsty_entry_signature_name name entries = None" by simp
    with get_pigsty_entry_signature_name_iff[of name entries]
    have nn: "name \<notin> set (map signature_name entries)" by simp
    from assms(1) g sk Found obtain cs where
      "entries' = set_tail_conf (add_signature_to_pigsty_entry entries name) cs"
      by (auto simp: mk_pigsty_entry_from_compiled_buffer_def Let_def split: option.splits)
    then have "map signature_name entries' = map signature_name entries @ [name]"
      by (simp add: set_tail_conf_names add_signature_to_pigsty_entry_def)
    with nn assms(2) show ?thesis by simp
  qed
qed

lemma make_pigsty_data_loop_names:
  "make_pigsty_data_loop buf entry p = Some (st, msgs) \<Longrightarrow> distinct (map signature_name entry) \<Longrightarrow>
     distinct (map signature_name st)"
proof (induction buf entry p arbitrary: st msgs rule: make_pigsty_data_loop.induct)
  case (1 buf entry p)
  note eq = "1.prems"(1)[unfolded make_pigsty_data_loop.simps[of buf entry p]]
  from eq obtain entry' n m where mk: "mk_pigsty_entry_from_compiled_buffer buf entry p = Some (entry', n, m)"
    by (auto split: option.splits)
  from mk_pigsty_entry_from_compiled_buffer_names[OF mk "1.prems"(2)]
  have d: "distinct (map signature_name entry')" .
  from eq mk obtain c where c: "char_at buf n = Some c" by (auto split: option.splits)
  show ?case
  proof (cases "c \<noteq> CHR 0x00 \<and> entry' \<noteq> []")
    case False
    with eq mk c d show ?thesis by auto
  next
    case True
    with eq mk c obtain m' where rec: "make_pigsty_data_loop buf entry' n = Some (st, m')"
      by (auto split: option.splits)
    from "1.IH"[OF mk refl refl c True rec d] show ?thesis .
  qed
qed

subsection \<open>What the syntax pass guarantees to the builder\<close>
































subsection \<open>The course of the syntax pass\<close>






section \<open>Claims about the value classifiers\<close>

text \<open>
  Claim C3. The claim: for every width \<open>n\<close> the validator \<^verbatim>\<open>u<n>\<close> accepts exactly the
  integer and hexadecimal literals with a value in \<open>[0, 2^n - 1]\<close>, and in particular
  \<^verbatim>\<open>verify_u32\<close> accepts every value up to \<open>2^32 - 1\<close>. The code stores the parsed value
  in an \<open>int\<close>: the literals \<^verbatim>\<open>0xffffffff\<close> and \<^verbatim>\<open>4294967295\<close>, both \<open>2^32 - 1\<close>, become
  \<open>-1\<close> and fail the test \<^verbatim>\<open>retval >= 0x0\<close>, so \<^verbatim>\<open>verify_u32\<close> rejects them, as it does
  \<open>2^31\<close>; the largest value it accepts is \<open>2^31 - 1\<close>.
\<close>

theorem verify_u32_rejects_upper_half:
  "verify_u32 ''0xffffffff'' = False \<and> verify_u32 ''4294967295'' = False \<and>
   verify_u32 ''0x80000000'' = False \<and> verify_u32 ''0x7fffffff'' = True"
  by code_simp

text \<open>
  Claim C7. The claim: apart from the five symbolic tags, \<^verbatim>\<open>verify_ipv4_addr\<close> accepts a
  token exactly when it has four dot-separated groups and each group parses as an
  integer in \<open>[0, 255]\<close>. The code evaluates \<^verbatim>\<open>atoi\<close> on the scratch array at every dot and
  at the last character, and \<^verbatim>\<open>atoi\<close> of an empty group is \<open>0\<close>: tokens with empty
  groups, such as \<^verbatim>\<open>1.2.3.\<close>, \<^verbatim>\<open>1..2.3\<close> and \<^verbatim>\<open>...\<close>, are accepted as IPv4 addresses.
\<close>

theorem verify_ipv4_addr_accepts_empty_groups:
  "verify_ipv4_addr ''1.2.3.'' = Some True \<and> verify_ipv4_addr ''1..2.3'' = Some True \<and>
   verify_ipv4_addr ''...'' = Some True"
  by code_simp

text \<open>
  Claim C8. The claim: \<^verbatim>\<open>verify_string\<close> accepts a token exactly when it begins and ends
  with a double quote and has length at least 2, so a token that is a single double
  quote is rejected. The code compares the first character and the character at index
  \<^verbatim>\<open>strlen(buffer) - 1\<close> with the double quote and never looks at the length: for the
  one-character token both tests read the same character, and the token is accepted.
\<close>

theorem verify_string_accepts_single_quote:
  "verify_string [CHR 0x22] = True"
  by code_simp

section \<open>Claims about the tokenizer\<close>

text \<open>
  Claim C6. The claim: when the next non-blank character is a double quote, the token
  runs from that quote to the matching unescaped quote, and every backslash inside the
  quotes, also one that is the first character behind the opening quote, makes the
  following character part of the string. The inner loop of \<^verbatim>\<open>get_next_pigsty_word\<close>
  tests for a backslash only after it has stepped over a character, so it never tests
  the first character behind the opening quote, nor the character it lands on after
  an escape. In the buffer \<^verbatim>\<open>"\"a"\<close> the token ends at the escaped quote: it is \<^verbatim>\<open>"\"\<close>,
  and the cursor is left on \<^verbatim>\<open>a\<close>. In \<^verbatim>\<open>"a\"\"b" x\<close> the first escape is honoured and the
  second is not: the token is \<^verbatim>\<open>"a\"\"\<close>.
\<close>

theorem get_next_pigsty_word_escape_missed:
  "get_next_pigsty_word [CHR 0x22, CHR 0x5C, CHR 0x22, CHR ''a'', CHR 0x22] 0
     = Some ([CHR 0x22, CHR 0x5C, CHR 0x22], 3) \<and>
   get_next_pigsty_word
     [CHR 0x22, CHR ''a'', CHR 0x5C, CHR 0x22, CHR 0x5C, CHR 0x22, CHR ''b'', CHR 0x22, CHR '' '', CHR ''x''] 0
     = Some ([CHR 0x22, CHR ''a'', CHR 0x5C, CHR 0x22, CHR 0x5C, CHR 0x22], 6) \<and>
   get_next_pigsty_word
     [CHR 0x22, CHR ''a'', CHR 0x5C, CHR 0x22, CHR ''b'', CHR 0x22, CHR '' '', CHR ''x''] 0
     = Some ([CHR 0x22, CHR ''a'', CHR 0x5C, CHR 0x22, CHR ''b'', CHR 0x22], 6)"
  by code_simp

text \<open>
  Claim C10. A \<^verbatim>\<open>#\<close> starts a skipped comment only when it stands directly behind a
  blank that \<^verbatim>\<open>skip_pigsty_blank\<close> has just consumed: every place \<open>q\<close> at which the loop
  calls \<^verbatim>\<open>skip_pigsty_comment\<close> lies behind the start \<open>b\<close>, holds a \<^verbatim>\<open>#\<close>, and the
  character before it is a blank. When the cursor \<open>p\<close> itself stands on a \<^verbatim>\<open>#\<close> (at
  the start of the buffer, or directly behind a token), nothing is skipped, no comment
  is recognised, and every token \<^verbatim>\<open>get_next_pigsty_word\<close> returns from there begins with
  that \<^verbatim>\<open>#\<close> and moves the cursor forward; it does return one whenever no double quote
  follows.
\<close>

theorem hash_is_comment_only_after_blank:
  "(\<forall>q \<in> set (skip_pigsty_blank_comments buf b).
      b < q \<and> char_at buf q = Some CHR ''#'' \<and>
      (\<exists>c. char_at buf (q - 1) = Some c \<and> is_pigsty_blank c)) \<and>
   (char_at buf p = Some CHR ''#'' \<longrightarrow>
      skip_pigsty_blank buf p = Some p \<and>
      skip_pigsty_blank_comments buf p = [] \<and>
      (\<forall>tok next. get_next_pigsty_word buf p = Some (tok, next) \<longrightarrow>
         p < next \<and> (\<exists>rest. tok = CHR ''#'' # rest)) \<and>
      (CHR 0x22 \<notin> set (drop p buf) \<longrightarrow>
         (\<exists>tok next. get_next_pigsty_word buf p = Some (tok, next))))"
proof (intro conjI ballI impI allI)
  fix q assume "q \<in> set (skip_pigsty_blank_comments buf b)"
  from skip_pigsty_blank_comments_after_blank[OF this]
  show "b < q" and "char_at buf q = Some CHR ''#''"
    and "\<exists>c. char_at buf (q - 1) = Some c \<and> is_pigsty_blank c"
    by auto
next
  assume h: "char_at buf p = Some CHR ''#''"
  have nb: "\<not> is_pigsty_blank CHR ''#''" by (simp add: is_pigsty_blank_def)
  from h show "skip_pigsty_blank buf p = Some p" by (rule hash_starts_word(1))
  from h nb show "skip_pigsty_blank_comments buf p = []"
    by (rule skip_pigsty_blank_comments_nonblank)
next
  fix tok "next"
  assume "char_at buf p = Some CHR ''#''" "get_next_pigsty_word buf p = Some (tok, next)"
  from hash_starts_word(2)[OF this]
  show "p < next" and "\<exists>rest. tok = CHR ''#'' # rest" by auto
next
  assume "char_at buf p = Some CHR ''#''" "CHR 0x22 \<notin> set (drop p buf)"
  then show "\<exists>tok next. get_next_pigsty_word buf p = Some (tok, next)"
    by (rule hash_starts_word(3))
qed

theorem hash_is_comment_only_after_blank_witness:
  "skip_pigsty_blank ''=#x y'' 1 = Some 1 \<and>
   (\<exists>rest next. get_next_pigsty_word ''=#x y'' 1 = Some (CHR ''#'' # rest, next) \<and> 1 < next) \<and>
   skip_pigsty_blank_comments [CHR '' '', CHR ''#'', CHR ''c'', CHR 0x0A, CHR ''#'', CHR ''d'', CHR 0x0A, CHR ''z''] 0 = [1, 4] \<and>
   char_at [CHR '' '', CHR ''#'', CHR ''c'', CHR 0x0A, CHR ''#'', CHR ''d'', CHR 0x0A, CHR ''z''] 4 = Some CHR ''#'' \<and>
   (\<exists>c. char_at [CHR '' '', CHR ''#'', CHR ''c'', CHR 0x0A, CHR ''#'', CHR ''d'', CHR 0x0A, CHR ''z''] (4 - 1) = Some c
        \<and> is_pigsty_blank c)"
proof -
  let ?b1 = "''=#x y''"
  let ?b2 = "[CHR '' '', CHR ''#'', CHR ''c'', CHR 0x0A, CHR ''#'', CHR ''d'', CHR 0x0A, CHR ''z'']"
  have h: "char_at ?b1 1 = Some CHR ''#''" by code_simp
  have nq: "CHR 0x22 \<notin> set (drop 1 ?b1)" by code_simp
  have tr: "skip_pigsty_blank_comments ?b2 0 = [1, 4]" by code_simp
  then have mem: "4 \<in> set (skip_pigsty_blank_comments ?b2 0)" by simp
  note t = hash_is_comment_only_after_blank[where buf = ?b1 and p = 1]
  note t2 = hash_is_comment_only_after_blank[where buf = ?b2 and b = 0]
  from t h have a: "skip_pigsty_blank ?b1 1 = Some 1" by blast
  from t h nq obtain tok "next" where g: "get_next_pigsty_word ?b1 1 = Some (tok, next)" by blast
  from t h g have "1 < next \<and> (\<exists>rest. tok = CHR ''#'' # rest)" by blast
  with g have b: "\<exists>rest next. get_next_pigsty_word ?b1 1 = Some (CHR ''#'' # rest, next) \<and> 1 < next"
    by blast
  from t2 mem have c: "char_at ?b2 4 = Some CHR ''#'' \<and> (\<exists>c. char_at ?b2 (4 - 1) = Some c \<and> is_pigsty_blank c)"
    by blast
  from a b tr c show ?thesis by blast
qed

section \<open>Claims about the loader\<close>

text \<open>
  Claim C1. The claim: when some entry block of the document has no \<^verbatim>\<open>signature\<close> field,
  the load fails with the missing-signature error and returns no entries, those built
  from earlier blocks included. \<^verbatim>\<open>mk_pigsty_entry_from_compiled_buffer\<close> prints
  \<^verbatim>\<open>pig PANIC: signature field missing.\<close> and then returns the store it was given, where
  the redeclaration path beside it deletes the store and returns \<^verbatim>\<open>NULL\<close>. So a document
  whose last block has no signature loads: the entry of the first block is returned.
  The search for the \<^verbatim>\<open>signature\<close> token also runs past the end of the block, so a block
  without signature that is followed by a block with one takes that block's name, and
  the load then fails on the next block with the redeclaration message, not with the
  missing-signature one.
\<close>

theorem load_keeps_entries_without_signature:
  \<open>load_pigsty_data_from_file []
     (Some ''[signature="t", ip.version=4, ip.src=10.0.0.1, ip.dst=10.0.0.2, ip.protocol=6] [ip.version=4, ip.src=10.0.0.1, ip.dst=10.0.0.2, ip.protocol=6]'')
     = Some ([\<lparr>signature_name = ''t'', conf =
                [\<lparr>index = kIpv4_version, data = Some (IntData 4), dsize = 1\<rparr>,
                 \<lparr>index = kIpv4_src, data = Some (Ipv4Data [10, 0, 0, 1]), dsize = 4\<rparr>,
                 \<lparr>index = kIpv4_dst, data = Some (Ipv4Data [10, 0, 0, 2]), dsize = 4\<rparr>,
                 \<lparr>index = kIpv4_protocol, data = Some (IntData 6), dsize = 1\<rparr>]\<rparr>],
             [PanicSignatureFieldMissing]) \<and>
   load_pigsty_data_from_file []
     (Some ''[ip.tos=1] [signature="t", ip.version=4, ip.src=10.0.0.1, ip.dst=10.0.0.2, ip.protocol=6]'')
     = Some ([], [PanicSignatureRedeclared ''t''])\<close>
  by code_simp

text \<open>
  Claim C4. Whenever the store the builder makes from a document holds an entry \<open>ep\<close>
  without a configuration for \<^verbatim>\<open>ip.version\<close>, the load returns no entries, whatever the
  other entries are; and when the syntax pass succeeds and the entries before \<open>ep\<close> pass
  the validation, the load does return, with the missing-version message for \<open>ep\<close> as
  the last thing printed before the message that names the signature.
\<close>


theorem load_fails_without_ip_version:
  assumes built: "make_pigsty_data_from_loaded_data entry d = Some (es1 @ ep # es2, msgs2)"
    and nv: "kIpv4_version \<notin> set (map index (conf ep))"
  shows "(\<forall>r msgs. load_pigsty_data_from_file entry (Some d) = Some (r, msgs) \<longrightarrow> r = []) \<and>
         (\<forall>msgs1. compile_pigsty_buffer d = Some (True, msgs1) \<and>
            (\<forall>e \<in> set es1. \<exists>m. verify_required_fields_entry e = Some (True, m)) \<longrightarrow>
            (\<exists>m. load_pigsty_data_from_file entry (Some d) =
               Some ([], msgs1 @ msgs2 @ m @
                     [PanicIpVersionMissing (signature_name ep), PanicOnSignature (signature_name ep)])))"
proof (intro conjI allI impI)
  fix r msgs
  assume l: "load_pigsty_data_from_file entry (Some d) = Some (r, msgs)"
  show "r = []"
  proof (cases "compile_pigsty_buffer d")
    case None
    with l show ?thesis by (simp add: load_pigsty_data_from_file_def)
  next
    case (Some a)
    obtain all_ok msgs1 where a: "a = (all_ok, msgs1)" by (cases a)
    show ?thesis
    proof (cases all_ok)
      case False
      with l Some a show ?thesis by (simp add: load_pigsty_data_from_file_def)
    next
      case True
      have nt: "verify_required_fields (es1 @ ep # es2) \<noteq> Some (True, m)" for m
        by (rule verify_required_fields_missing_version(1)[OF nv])
      show ?thesis
      proof (cases "verify_required_fields (es1 @ ep # es2)")
        case None
        with l Some a True built show ?thesis by (simp add: load_pigsty_data_from_file_def)
      next
        case vr: (Some b)
        obtain ok msgs3 where b: "b = (ok, msgs3)" by (cases b)
        with vr nt[of msgs3] have "\<not> ok" by auto
        with l Some a True built vr b show ?thesis
          by (simp add: load_pigsty_data_from_file_def)
      qed
    qed
  qed
next
  fix msgs1
  assume h: "compile_pigsty_buffer d = Some (True, msgs1) \<and>
            (\<forall>e \<in> set es1. \<exists>m. verify_required_fields_entry e = Some (True, m))"
  from verify_required_fields_missing_version(2)[OF nv, of es1 es2] h
  obtain m1 where "verify_required_fields (es1 @ ep # es2) =
             Some (False, m1 @ [PanicIpVersionMissing (signature_name ep), PanicOnSignature (signature_name ep)])"
    by blast
  with h built show "\<exists>m. load_pigsty_data_from_file entry (Some d) =
               Some ([], msgs1 @ msgs2 @ m @
                     [PanicIpVersionMissing (signature_name ep), PanicOnSignature (signature_name ep)])"
    by (simp add: load_pigsty_data_from_file_def)
qed

theorem load_fails_without_ip_version_witness:
  \<open>\<exists>m. load_pigsty_data_from_file []
     (Some ''[signature="a", ip.version=4, ip.src=10.0.0.1, ip.dst=10.0.0.2, ip.protocol=6]\<newline>[signature="b", ip.src=10.0.0.1, ip.dst=10.0.0.2, ip.protocol=6]'')
     = Some ([], m @ [PanicIpVersionMissing ''b'', PanicOnSignature ''b''])\<close>
proof -
  let ?d = \<open>''[signature="a", ip.version=4, ip.src=10.0.0.1, ip.dst=10.0.0.2, ip.protocol=6]\<newline>[signature="b", ip.src=10.0.0.1, ip.dst=10.0.0.2, ip.protocol=6]''\<close>
  let ?a = "\<lparr>signature_name = ''a'', conf =
              [\<lparr>index = kIpv4_version, data = Some (IntData 4), dsize = 1\<rparr>,
               \<lparr>index = kIpv4_src, data = Some (Ipv4Data [10, 0, 0, 1]), dsize = 4\<rparr>,
               \<lparr>index = kIpv4_dst, data = Some (Ipv4Data [10, 0, 0, 2]), dsize = 4\<rparr>,
               \<lparr>index = kIpv4_protocol, data = Some (IntData 6), dsize = 1\<rparr>]\<rparr>"
  let ?b = "\<lparr>signature_name = ''b'', conf =
              [\<lparr>index = kIpv4_src, data = Some (Ipv4Data [10, 0, 0, 1]), dsize = 4\<rparr>,
               \<lparr>index = kIpv4_dst, data = Some (Ipv4Data [10, 0, 0, 2]), dsize = 4\<rparr>,
               \<lparr>index = kIpv4_protocol, data = Some (IntData 6), dsize = 1\<rparr>]\<rparr>"
  have built: "make_pigsty_data_from_loaded_data [] ?d = Some ([?a] @ ?b # [], [])"
    by code_simp
  have nv: "kIpv4_version \<notin> set (map index (conf ?b))" by simp
  have c: "compile_pigsty_buffer ?d = Some (True, [])" by code_simp
  have ok: "\<forall>e \<in> set [?a]. \<exists>m. verify_required_fields_entry e = Some (True, m)"
  proof -
    have "verify_required_fields_entry ?a = Some (True, [])" by code_simp
    then show ?thesis by simp
  qed
  from load_fails_without_ip_version[OF built nv] c ok
  obtain m where m: "load_pigsty_data_from_file [] (Some ?d) =
      Some ([], [] @ [] @ m @ [PanicIpVersionMissing (signature_name ?b), PanicOnSignature (signature_name ?b)])"
    by blast
  then show ?thesis by auto
qed

text \<open>
  Claim C5. When the builder, having come to a block at the cursor \<open>p\<close> with the store
  \<open>es\<close>, finds that the \<^verbatim>\<open>signature\<close> field it meets from there declares a name \<open>name\<close>
  (the search, run against an empty store, ends with \<open>Found name\<close>) and \<open>es\<close> already
  holds an entry of that name, the load returns no entries: the first bearer of the
  name and everything else built so far is dropped. When the syntax pass has succeeded
  the load does return, and the redeclaration message is the last one printed. In the
  other direction, the names of a store that a load into an empty store returns are
  pairwise distinct.
\<close>

theorem load_fails_on_redeclared_signature:
  "(builder_reaches d (entry, 0) (es, p) \<and>
    get_next_pigsty_word d p = Some (token, nxt) \<and>
    mk_pigsty_entry_seek d [] token nxt = Some (Found name n) \<and>
    name \<in> set (map signature_name es) \<longrightarrow>
      (\<forall>r msgs. load_pigsty_data_from_file entry (Some d) = Some (r, msgs) \<longrightarrow> r = []) \<and>
      (\<forall>msgs1. compile_pigsty_buffer d = Some (True, msgs1) \<longrightarrow>
         (\<exists>m. load_pigsty_data_from_file entry (Some d) =
                 Some ([], msgs1 @ m @ [PanicSignatureRedeclared name])))) \<and>
   (load_pigsty_data_from_file [] (Some d) = Some (st, msgs') \<longrightarrow>
      distinct (map signature_name st))"
proof (intro conjI impI)
  assume h: "builder_reaches d (entry, 0) (es, p) \<and>
    get_next_pigsty_word d p = Some (token, nxt) \<and>
    mk_pigsty_entry_seek d [] token nxt = Some (Found name n) \<and>
    name \<in> set (map signature_name es)"
  then have "make_pigsty_data_loop d es p = Some ([], [PanicSignatureRedeclared name])"
    by (intro make_pigsty_data_loop_Redeclared[where token = token and nxt = nxt and n = n]) simp_all
  with builder_reaches_result[of d entry 0 es p] h
  obtain msgs0 where
    mk: "make_pigsty_data_from_loaded_data entry d = Some ([], msgs0 @ [PanicSignatureRedeclared name])"
    by (auto simp: make_pigsty_data_from_loaded_data_def)
  have v: "verify_required_fields [] = Some (True, [])"
    by (simp add: verify_required_fields_def)
  show "\<forall>r msgs. load_pigsty_data_from_file entry (Some d) = Some (r, msgs) \<longrightarrow> r = []"
    using mk v
    by (auto simp: load_pigsty_data_from_file_def split: option.splits if_splits)
  show "\<forall>msgs1. compile_pigsty_buffer d = Some (True, msgs1) \<longrightarrow>
         (\<exists>m. load_pigsty_data_from_file entry (Some d) =
                 Some ([], msgs1 @ m @ [PanicSignatureRedeclared name]))"
    using mk v
    by (auto simp: load_pigsty_data_from_file_def)
next
  assume l: "load_pigsty_data_from_file [] (Some d) = Some (st, msgs')"
  show "distinct (map signature_name st)"
  proof (cases "st = []")
    case True
    then show ?thesis by simp
  next
    case False
    with l obtain m2 where "make_pigsty_data_loop d [] 0 = Some (st, m2)"
      by (auto simp: load_pigsty_data_from_file_def make_pigsty_data_from_loaded_data_def
               split: option.splits if_splits)
    from make_pigsty_data_loop_names[OF this] show ?thesis by simp
  qed
qed

theorem load_fails_on_redeclared_signature_witness:
  \<open>(\<exists>m. load_pigsty_data_from_file []
     (Some ''[signature="t", ip.version=4, ip.src=10.0.0.1, ip.dst=10.0.0.2, ip.protocol=6]\<newline>[signature="t", ip.version=4, ip.src=10.0.0.1, ip.dst=10.0.0.2, ip.protocol=6]'')
     = Some ([], m @ [PanicSignatureRedeclared ''t''])) \<and>
   (\<exists>st m. load_pigsty_data_from_file []
     (Some ''[signature="t", ip.version=4, ip.src=10.0.0.1, ip.dst=10.0.0.2, ip.protocol=6]\<newline>[signature="u", ip.version=4, ip.src=10.0.0.1, ip.dst=10.0.0.2, ip.protocol=6]'')
     = Some (st, m) \<and> length st = 2 \<and> distinct (map signature_name st))\<close>
proof -
  let ?d = \<open>''[signature="t", ip.version=4, ip.src=10.0.0.1, ip.dst=10.0.0.2, ip.protocol=6]\<newline>[signature="t", ip.version=4, ip.src=10.0.0.1, ip.dst=10.0.0.2, ip.protocol=6]''\<close>
  let ?d2 = \<open>''[signature="t", ip.version=4, ip.src=10.0.0.1, ip.dst=10.0.0.2, ip.protocol=6]\<newline>[signature="u", ip.version=4, ip.src=10.0.0.1, ip.dst=10.0.0.2, ip.protocol=6]''\<close>
  let ?cs = "[\<lparr>index = kIpv4_version, data = Some (IntData 4), dsize = 1\<rparr>,
               \<lparr>index = kIpv4_src, data = Some (Ipv4Data [10, 0, 0, 1]), dsize = 4\<rparr>,
               \<lparr>index = kIpv4_dst, data = Some (Ipv4Data [10, 0, 0, 2]), dsize = 4\<rparr>,
               \<lparr>index = kIpv4_protocol, data = Some (IntData 6), dsize = 1\<rparr>]"
  let ?t = "\<lparr>signature_name = ''t'', conf = ?cs\<rparr>"
  let ?u = "\<lparr>signature_name = ''u'', conf = ?cs\<rparr>"
  have mk: "mk_pigsty_entry_from_compiled_buffer ?d [] 0 = Some ([?t], 78, [])" by code_simp
  have c: "char_at ?d 78 = Some (CHR 0x0A)" by code_simp
  have reach: "builder_reaches ?d ([], 0) ([?t], 78)"
    by (rule builder_reaches.step[OF builder_reaches.start mk c]) simp_all
  have tok: "get_next_pigsty_word ?d 78 = Some (''['', 80)" by code_simp
  have decl: "mk_pigsty_entry_seek ?d [] ''['' 80 = Some (Found ''t'' 93)" by code_simp
  have dup: "''t'' \<in> set (map signature_name [?t])" by simp
  have comp: "compile_pigsty_buffer ?d = Some (True, [])" by code_simp
  from load_fails_on_redeclared_signature[where d = ?d and entry = "[]" and es = "[?t]" and p = 78
      and token = "''[''" and nxt = 80 and name = "''t''" and n = 93]
    reach tok decl dup comp
  have "\<exists>m. load_pigsty_data_from_file [] (Some ?d) = Some ([], [] @ m @ [PanicSignatureRedeclared ''t''])"
    by blast
  then have a: "\<exists>m. load_pigsty_data_from_file [] (Some ?d) = Some ([], m @ [PanicSignatureRedeclared ''t''])"
    by simp
  have l2: "load_pigsty_data_from_file [] (Some ?d2) = Some ([?t, ?u], [])" by code_simp
  from load_fails_on_redeclared_signature[where d = ?d2 and st = "[?t, ?u]" and msgs' = "[]"] l2
  have "distinct (map signature_name [?t, ?u])" by blast
  with l2 have b: "\<exists>st m. load_pigsty_data_from_file [] (Some ?d2) = Some (st, m) \<and> length st = 2 \<and>
      distinct (map signature_name st)"
    by (intro exI[of _ "[?t, ?u]"] exI[of _ "[]"]) simp
  from a b show ?thesis by blast
qed




section \<open>Claims about the required-field validation\<close>

text \<open>
  Claim C2, as stated: an entry with a TCP, UDP or ICMP field and no \<^verbatim>\<open>ip.protocol\<close>
  fails the validation, and the same entry with \<^verbatim>\<open>ip.protocol\<close> added passes. The second
  half fails for an entry that lacks one of the other required fields: the store the
  builder makes from \<^verbatim>\<open>[signature="a", tcp.src=80, ip.protocol=6]\<close> fails the validation,
  for want of \<^verbatim>\<open>ip.version\<close>, and the load returns nothing.
\<close>

theorem entry_with_protocol_still_fails:
  \<open>make_pigsty_data_from_loaded_data [] ''[signature="a", tcp.src=80]'' =
     Some ([\<lparr>signature_name = ''a'', conf =
              [\<lparr>index = kTcp_src, data = Some (IntData 80), dsize = 1\<rparr>]\<rparr>], []) \<and>
   make_pigsty_data_from_loaded_data [] ''[signature="a", tcp.src=80, ip.protocol=6]'' =
     Some ([\<lparr>signature_name = ''a'', conf =
              [\<lparr>index = kTcp_src, data = Some (IntData 80), dsize = 1\<rparr>,
               \<lparr>index = kIpv4_protocol, data = Some (IntData 6), dsize = 1\<rparr>]\<rparr>], []) \<and>
   verify_required_fields
     [\<lparr>signature_name = ''a'', conf =
        [\<lparr>index = kTcp_src, data = Some (IntData 80), dsize = 1\<rparr>,
         \<lparr>index = kIpv4_protocol, data = Some (IntData 6), dsize = 1\<rparr>]\<rparr>]
     = Some (False, [PanicIpVersionMissing ''a'', PanicOnSignature ''a'']) \<and>
   load_pigsty_data_from_file [] (Some ''[signature="a", tcp.src=80, ip.protocol=6]'')
     = Some ([], [PanicIpVersionMissing ''a'', PanicOnSignature ''a''])\<close>
  by code_simp


text \<open>
  Claim C2, amended. In any store, an entry \<open>ep\<close> without a configuration for
  \<^verbatim>\<open>ip.protocol\<close> never passes the validation (with a transport field or without: for
  version 4 the field is required). The entry with a configuration \<open>p\<close> for
  \<^verbatim>\<open>ip.protocol\<close> added at any place passes, whatever the value \<open>v\<close> of \<open>p\<close> from 0 on,
  provided the entry carries \<^verbatim>\<open>ip.version\<close> 4, \<^verbatim>\<open>ip.src\<close> and \<^verbatim>\<open>ip.dst\<close>; and then the whole
  store passes when the entries before and behind it do.
\<close>

theorem entry_with_protocol_passes:
  assumes split: "conf ep = xs @ ys"
    and np: "kIpv4_protocol \<notin> set (map index (conf ep))"
  shows "(\<forall>msgs. verify_required_fields (es1 @ ep # es2) \<noteq> Some (True, msgs)) \<and>
         (verify_required_fields_ip_version 0 (conf ep) = Some 4 \<and>
          kIpv4_src \<in> set (map index (conf ep)) \<and> kIpv4_dst \<in> set (map index (conf ep)) \<and>
          index p = kIpv4_protocol \<and> data p = Some (IntData v) \<and> 0 \<le> v \<longrightarrow>
            verify_required_fields_entry (ep\<lparr>conf := xs @ p # ys\<rparr>) = Some (True, []) \<and>
            (\<forall>m1 m2. verify_required_fields es1 = Some (True, m1) \<and>
                      verify_required_fields es2 = Some (True, m2) \<longrightarrow>
               verify_required_fields (es1 @ ep\<lparr>conf := xs @ p # ys\<rparr> # es2) = Some (True, m1 @ m2)))"
proof (intro conjI allI impI)
  fix msgs
  show "verify_required_fields (es1 @ ep # es2) \<noteq> Some (True, msgs)"
    unfolding verify_required_fields_def
    by (rule verify_required_fields_loop_not_True)
       (rule verify_required_fields_entry_no_protocol[OF np])
next
  assume h: "verify_required_fields_ip_version 0 (conf ep) = Some 4 \<and>
          kIpv4_src \<in> set (map index (conf ep)) \<and> kIpv4_dst \<in> set (map index (conf ep)) \<and>
          index p = kIpv4_protocol \<and> data p = Some (IntData v) \<and> 0 \<le> v"
  with split np show e: "verify_required_fields_entry (ep\<lparr>conf := xs @ p # ys\<rparr>) = Some (True, [])"
    by (intro verify_required_fields_entry_with_protocol[where v = v]) simp_all
  fix m1 m2
  assume "verify_required_fields es1 = Some (True, m1) \<and> verify_required_fields es2 = Some (True, m2)"
  with e show "verify_required_fields (es1 @ ep\<lparr>conf := xs @ p # ys\<rparr> # es2) = Some (True, m1 @ m2)"
    by (simp add: verify_required_fields_def verify_required_fields_loop_append)
qed

theorem entry_with_protocol_passes_witness:
  "verify_required_fields
     [\<lparr>signature_name = ''a'', conf =
        [\<lparr>index = kIpv4_version, data = Some (IntData 4), dsize = 1\<rparr>,
         \<lparr>index = kIpv4_src, data = Some (Ipv4Data [10, 0, 0, 1]), dsize = 4\<rparr>,
         \<lparr>index = kIpv4_dst, data = Some (Ipv4Data [10, 0, 0, 2]), dsize = 4\<rparr>,
         \<lparr>index = kTcp_src, data = Some (IntData 80), dsize = 1\<rparr>]\<rparr>] \<noteq> Some (True, []) \<and>
   verify_required_fields
     [\<lparr>signature_name = ''a'', conf =
        [\<lparr>index = kIpv4_version, data = Some (IntData 4), dsize = 1\<rparr>,
         \<lparr>index = kIpv4_src, data = Some (Ipv4Data [10, 0, 0, 1]), dsize = 4\<rparr>,
         \<lparr>index = kIpv4_dst, data = Some (Ipv4Data [10, 0, 0, 2]), dsize = 4\<rparr>,
         \<lparr>index = kIpv4_protocol, data = Some (IntData 200), dsize = 1\<rparr>,
         \<lparr>index = kTcp_src, data = Some (IntData 80), dsize = 1\<rparr>]\<rparr>] = Some (True, [])"
proof -
  let ?xs = "[\<lparr>index = kIpv4_version, data = Some (IntData 4), dsize = 1\<rparr>,
         \<lparr>index = kIpv4_src, data = Some (Ipv4Data [10, 0, 0, 1]), dsize = 4\<rparr>,
         \<lparr>index = kIpv4_dst, data = Some (Ipv4Data [10, 0, 0, 2]), dsize = 4\<rparr>]"
  let ?ys = "[\<lparr>index = kTcp_src, data = Some (IntData 80), dsize = (1::nat)\<rparr>]"
  let ?p = "\<lparr>index = kIpv4_protocol, data = Some (IntData 200), dsize = (1::nat)\<rparr>"
  let ?ep = "\<lparr>signature_name = ''a'', conf = ?xs @ ?ys\<rparr>"
  have split: "conf ?ep = ?xs @ ?ys" by simp
  have np: "kIpv4_protocol \<notin> set (map index (conf ?ep))" by simp
  have h: "verify_required_fields_ip_version 0 (conf ?ep) = Some 4 \<and>
          kIpv4_src \<in> set (map index (conf ?ep)) \<and> kIpv4_dst \<in> set (map index (conf ?ep)) \<and>
          index ?p = kIpv4_protocol \<and> data ?p = Some (IntData 200) \<and> (0::int) \<le> 200"
    by simp
  have e: "verify_required_fields [] = Some (True, [])" by (simp add: verify_required_fields_def)
  note t = entry_with_protocol_passes[OF split np, of "[]" "[]" ?p 200]
  from t have "verify_required_fields ([] @ ?ep # []) \<noteq> Some (True, [])" by blast
  moreover from t h e have "verify_required_fields ([] @ ?ep\<lparr>conf := ?xs @ ?p # ?ys\<rparr> # []) = Some (True, [] @ [])"
    by blast
  ultimately show ?thesis by simp
qed

end
